theory Spec2Isabelle
  imports Complex_Main
begin

section \<open>The grid of \<open>Sudoku.ts\<close>\<close>

text \<open>
  The class \<open>Sudoku\<close> holds one field, \<open>values: number[][]\<close>: an array of references
  to row arrays. The constructor keeps the array of its caller and copies nothing, and
  every method reads or writes the rows in place, so when two entries of \<open>values\<close>
  are one row array, a write through one of them shows in the other. The state is
  therefore the list of row references and the row arrays they refer to, by address.

  A TypeScript \<open>number\<close> is a double; the code only compares cells (\<open>===\<close>, \<open><\<close>,
  \<open>>\<close>) and never computes with them, so a cell is a \<open>real\<close>: the comparisons are
  exact, and \<open>NaN\<close> and the infinities, which validation rejects, are left out.
\<close>

type_synonym grid = "real list list"

record sudoku =
  rowRefs :: "nat list"
  heap :: "real list list"

text \<open>
  The matrix as the reads of the source see it: row \<open>r\<close> is the array at the address
  \<open>rowRefs ! r\<close>. A reference of JavaScript always denotes an array; an address outside
  the heap, which no caller can pass, reads as a row without cells.
\<close>

definition view :: "sudoku \<Rightarrow> grid" where
  "view s = map (\<lambda>a. if a < length (heap s) then heap s ! a else []) (rowRefs s)"

text \<open>A matrix whose rows are nine arrays of their own, as an array literal builds it.\<close>

definition fresh :: "grid \<Rightarrow> sudoku" where
  "fresh g = \<lparr>rowRefs = [0..<length g], heap = g\<rparr>"

text \<open>
  \<open>this.values[r][c]\<close> where the row exists. Reading a column past the end of a
  row gives \<open>undefined\<close> in JavaScript, which is equal to no number: that is
  \<open>None\<close>. The row index is below \<open>values.length\<close> at every read of the source.
\<close>

definition cell :: "grid \<Rightarrow> nat \<Rightarrow> nat \<Rightarrow> real option" where
  "cell g r c = (if r < length g \<and> c < length (g ! r) then Some (g ! r ! c) else None)"

text \<open>
  \<open>this.values[r][c] = v\<close>: the write goes into the row array that entry \<open>r\<close> refers
  to. Every write of the source is at a position that was read inside the matrix
  before, so the write never extends a row.
\<close>

definition setCell :: "sudoku \<Rightarrow> nat \<Rightarrow> nat \<Rightarrow> real \<Rightarrow> sudoku" where
  "setCell s r c v =
     s\<lparr>heap := (heap s)[rowRefs s ! r := (heap s ! (rowRefs s ! r))[c := v]]\<rparr>"

subsection \<open>Counting queries\<close>

definition countValueInRow :: "grid \<Rightarrow> nat \<Rightarrow> real \<Rightarrow> nat" where
  "countValueInRow g rowNumber v = length (filter (\<lambda>w. w = v) (g ! rowNumber))"

definition isValuePresentInRow :: "grid \<Rightarrow> nat \<Rightarrow> real \<Rightarrow> bool" where
  "isValuePresentInRow g rowNumber v = (countValueInRow g rowNumber v > 0)"

definition countValueInColumn :: "grid \<Rightarrow> nat \<Rightarrow> real \<Rightarrow> nat" where
  "countValueInColumn g columnNumber v =
     length (filter (\<lambda>x. cell g x columnNumber = Some v) [0..<length g])"

definition isValuePresentInColumn :: "grid \<Rightarrow> nat \<Rightarrow> real \<Rightarrow> bool" where
  "isValuePresentInColumn g columnNumber v = (countValueInColumn g columnNumber v > 0)"

text \<open>The cells of the 3 by 3 group of a position, in the order of the two loops.\<close>

definition groupCells :: "nat \<Rightarrow> nat \<Rightarrow> (nat \<times> nat) list" where
  "groupCells rowNumber columnNumber =
     (let groupX = (rowNumber div 3) * 3; groupY = (columnNumber div 3) * 3
      in concat (map (\<lambda>x. map (\<lambda>y. (x, y)) [groupY..<groupY + 3]) [groupX..<groupX + 3]))"

definition countValueInGroup :: "grid \<Rightarrow> nat \<Rightarrow> nat \<Rightarrow> real \<Rightarrow> nat" where
  "countValueInGroup g rowNumber columnNumber v =
     length (filter (\<lambda>p. cell g (fst p) (snd p) = Some v) (groupCells rowNumber columnNumber))"

definition isValuePresentInGroup :: "grid \<Rightarrow> nat \<Rightarrow> nat \<Rightarrow> real \<Rightarrow> bool" where
  "isValuePresentInGroup g rowNumber columnNumber v =
     (countValueInGroup g rowNumber columnNumber v > 0)"

definition canValueBeAddedInOnlyOnePositionInGroup :: "grid \<Rightarrow> nat \<Rightarrow> nat \<Rightarrow> real \<Rightarrow> bool" where
  "canValueBeAddedInOnlyOnePositionInGroup g rowNumber columnNumber v =
     (length (filter (\<lambda>p. cell g (fst p) (snd p) = Some 0 \<and>
                          \<not> (isValuePresentInRow g (fst p) v \<or> isValuePresentInColumn g (snd p) v))
                (groupCells rowNumber columnNumber)) = 1)"

definition isValueValidInPosition :: "grid \<Rightarrow> nat \<Rightarrow> nat \<Rightarrow> real \<Rightarrow> bool \<Rightarrow> bool" where
  "isValueValidInPosition g rowNumber columnNumber v testOnlyOnePositionInGroup =
     (\<not> isValuePresentInRow g rowNumber v \<and>
      \<not> isValuePresentInColumn g columnNumber v \<and>
      \<not> isValuePresentInGroup g rowNumber columnNumber v \<and>
      (if testOnlyOnePositionInGroup
       then canValueBeAddedInOnlyOnePositionInGroup g rowNumber columnNumber v else True))"

definition isSolved :: "grid \<Rightarrow> bool" where
  "isSolved g = list_all (\<lambda>row. list_all (\<lambda>w. w \<noteq> 0) row) g"

section \<open>Construction and validation\<close>

text \<open>
  \<open>validate\<close> throws \<open>Error('Invalid game.')\<close> for a wrong number of rows or columns
  and \<open>Error('Invalid game. Position : (x,y)')\<close> for a cell; the two messages are the
  two constructors. The length of row \<open>x\<close> is checked when the outer loop reaches it,
  after the cells of the rows before it.
\<close>

datatype error = StructuralError | ConstraintError nat nat

definition cellInvalid :: "grid \<Rightarrow> nat \<Rightarrow> nat \<Rightarrow> bool" where
  "cellInvalid g x y =
     (let v = g ! x ! y
      in v \<noteq> 0 \<and>
         (v < 0 \<or> v > 9 \<or> countValueInRow g x v > 1 \<or> countValueInColumn g y v > 1 \<or>
          countValueInGroup g x y v > 1))"

fun validateCells :: "grid \<Rightarrow> nat \<Rightarrow> nat list \<Rightarrow> error option" where
  "validateCells g x [] = None"
| "validateCells g x (y # ys) =
     (if cellInvalid g x y then Some (ConstraintError x y) else validateCells g x ys)"

fun validateRows :: "grid \<Rightarrow> nat list \<Rightarrow> error option" where
  "validateRows g [] = None"
| "validateRows g (x # xs) =
     (if length (g ! x) \<noteq> 9 then Some StructuralError
      else (case validateCells g x [0..<length (g ! x)] of
              Some e \<Rightarrow> Some e
            | None \<Rightarrow> validateRows g xs))"

definition validate :: "grid \<Rightarrow> error option" where
  "validate g = (if length g \<noteq> 9 then Some StructuralError else validateRows g [0..<length g])"

text \<open>
  The constructor: it validates what its caller passed, as the reads see it, and keeps
  the caller's array when \<open>validate\<close> returns without throwing.
\<close>

definition construct :: "sudoku \<Rightarrow> error + sudoku" where
  "construct s = (case validate (view s) of Some e \<Rightarrow> Inl e | None \<Rightarrow> Inr s)"

section \<open>The propagation sweep\<close>

definition candidates :: "real list" where
  "candidates = [1, 2, 3, 4, 5, 6, 7, 8, 9]"

text \<open>
  The body of the two loops of \<open>solve\<close> at one position: the state is the object and
  the flag \<open>haveChangesOccured\<close>.
\<close>

definition sweepCell :: "nat \<Rightarrow> nat \<Rightarrow> sudoku \<times> bool \<Rightarrow> sudoku \<times> bool" where
  "sweepCell x y st =
     (if cell (view (fst st)) x y = Some 0
      then (case find (\<lambda>i. isValueValidInPosition (view (fst st)) x y i True) candidates of
              Some i \<Rightarrow> (setCell (fst st) x y i, True)
            | None \<Rightarrow> st)
      else st)"

definition sweepRow :: "nat \<Rightarrow> sudoku \<times> bool \<Rightarrow> sudoku \<times> bool" where
  "sweepRow x st = fold (sweepCell x) [0..<length (view (fst st) ! x)] st"

definition sweep :: "sudoku \<Rightarrow> sudoku \<times> bool" where
  "sweep s = fold sweepRow [0..<length (view s)] (s, False)"

definition zeroCount :: "grid \<Rightarrow> nat" where
  "zeroCount g = sum_list (map (\<lambda>row. length (filter (\<lambda>w. w = 0) row)) g)"

text \<open>
  The \<open>while\<close> loop of \<open>solve\<close>: sweep until the matrix is solved or a sweep changes
  nothing. The flag is reset before each sweep.
\<close>

function propagate :: "sudoku \<Rightarrow> sudoku" where
  "propagate s =
     (if isSolved (view s) then s
      else (let st = sweep s in if \<not> snd st then fst st else propagate (fst st)))"
  by pat_completeness auto

section \<open>Trial and error\<close>

text \<open>
  An entry of \<open>unfilledPositions\<close>: the object \<open>{ x, y, valuesTested }\<close>. The list
  holds references and the loop mutates the entry under the cursor, which is an
  update of the list at that index; no entry occurs twice in the list.
\<close>

record position =
  pos_x :: nat
  pos_y :: nat
  valuesTested :: "real list"

definition getUnfilledPositions :: "grid \<Rightarrow> position list" where
  "getUnfilledPositions g =
     concat (map (\<lambda>x. concat (map (\<lambda>y. if cell g x y = Some 0
                                         then [\<lparr>pos_x = x, pos_y = y, valuesTested = []\<rparr>]
                                         else [])
                                [0..<length g]))
              [0..<length g])"

definition isValueTested :: "real list \<Rightarrow> real \<Rightarrow> bool" where
  "isValueTested tested v = (v \<in> set tested)"

text \<open>
  What \<open>solve\<close> does: it returns with the object as it is then, or the uncaught
  \<open>TypeError\<close> of reading \<open>.x\<close> of \<open>undefined\<close> leaves the object as it is then.
\<close>

datatype result = Done sudoku | Fault sudoku

fun gridOf :: "result \<Rightarrow> sudoku" where
  "gridOf (Done s) = s"
| "gridOf (Fault s) = s"

text \<open>
  One iteration of \<open>while (true)\<close> in \<open>solveByTrialAndError\<close>. \<open>unfilledPositions[-1]\<close>
  is \<open>undefined\<close>, so the iteration entered with a negative cursor throws. When no
  value is found and \<open>isSolved\<close> holds, the source changes nothing and the loop goes on
  with the same cursor.
\<close>

datatype step = Continue sudoku "position list" int | Break sudoku | Throw sudoku

definition trialStep :: "sudoku \<Rightarrow> position list \<Rightarrow> int \<Rightarrow> step" where
  "trialStep s unfilledPositions nextIndex =
     (if nextIndex > int (length unfilledPositions) - 1 then Break s
      else if nextIndex < 0 then Throw s
      else
        (let p = unfilledPositions ! nat nextIndex;
             s0 = setCell s (pos_x p) (pos_y p) 0
         in case find (\<lambda>i. \<not> isValueTested (valuesTested p) i \<and>
                            isValueValidInPosition (view s0) (pos_x p) (pos_y p) i False)
                   candidates of
              Some i \<Rightarrow>
                Continue (setCell s0 (pos_x p) (pos_y p) i)
                  (unfilledPositions[nat nextIndex := p\<lparr>valuesTested := valuesTested p @ [i]\<rparr>])
                  (nextIndex + 1)
            | None \<Rightarrow>
                if \<not> isSolved (view s0)
                then Continue (setCell s0 (pos_x p) (pos_y p) 0)
                       (unfilledPositions[nat nextIndex := p\<lparr>valuesTested := []\<rparr>])
                       (nextIndex - 1)
                else Continue s0 unfilledPositions nextIndex))"

partial_function (option) trialLoop :: "sudoku \<Rightarrow> position list \<Rightarrow> int \<Rightarrow> result option" where
  "trialLoop s unfilledPositions nextIndex =
     (case trialStep s unfilledPositions nextIndex of
        Break s' \<Rightarrow> Some (Done s')
      | Throw s' \<Rightarrow> Some (Fault s')
      | Continue s' ups' k' \<Rightarrow> trialLoop s' ups' k')"

definition solveByTrialAndError :: "sudoku \<Rightarrow> result option" where
  "solveByTrialAndError s = trialLoop s (getUnfilledPositions (view s)) 0"

text \<open>\<open>solve\<close>: the sweeps, then trial and error when the matrix is not solved.\<close>

definition solve :: "sudoku \<Rightarrow> result option" where
  "solve s =
     (let s1 = propagate s
      in if \<not> isSolved (view s1) then solveByTrialAndError s1 else Some (Done s1))"

section \<open>The placement rule of the sweep, in the words of the specification\<close>



definition spec_block :: "nat \<Rightarrow> nat \<Rightarrow> (nat \<times> nat) set" where
  "spec_block r c = {3 * (r div 3)..<3 * (r div 3) + 3} \<times> {3 * (c div 3)..<3 * (c div 3) + 3}"




section \<open>Notions of the proofs\<close>

text \<open>
  What a sweep started on \<open>s\<close> keeps true of its state: no more empty cells in the
  row arrays than \<open>s\<close> has, and fewer once the flag is set.
\<close>

definition sweepBound :: "sudoku \<Rightarrow> sudoku \<times> bool \<Rightarrow> bool" where
  "sweepBound s st =
     (zeroCount (heap (fst st)) \<le> zeroCount (heap s) \<and>
      (snd st \<longrightarrow> zeroCount (heap (fst st)) < zeroCount (heap s)))"

definition isNineByNine :: "grid \<Rightarrow> bool" where
  "isNineByNine g = (length g = 9 \<and> list_all (\<lambda>row. length row = 9) g)"

text \<open>What the loop over rows of \<open>validate\<close> finds at row \<open>x\<close>.\<close>

definition rowResult :: "grid \<Rightarrow> nat \<Rightarrow> error option" where
  "rowResult g x =
     (if length (g ! x) \<noteq> 9 then Some StructuralError else validateCells g x [0..<length (g ! x)])"

text \<open>The object an iteration of trial and error leaves.\<close>

fun stepGrid :: "step \<Rightarrow> sudoku" where
  "stepGrid (Continue s ups k) = s"
| "stepGrid (Break s) = s"
| "stepGrid (Throw s) = s"

definition coordinates :: "position list \<Rightarrow> (nat \<times> nat) list" where
  "coordinates ups = map (\<lambda>p. (pos_x p, pos_y p)) ups"

text \<open>The number of filled cells of a matrix.\<close>

definition filledCells :: "grid \<Rightarrow> nat" where
  "filledCells g = length (filter (\<lambda>v. v \<noteq> 0) (concat g))"

text \<open>
  Properties of a matrix that \<open>solve\<close> keeps: every cell satisfies a predicate, and no
  value other than 0 stands at two cells of one row, one column or one group.
\<close>

definition allCells :: "(real \<Rightarrow> bool) \<Rightarrow> grid \<Rightarrow> bool" where
  "allCells P g = list_all (list_all P) g"

definition isInteger :: "real \<Rightarrow> bool" where
  "isInteger v = (of_int \<lfloor>v\<rfloor> = v)"

definition inRange :: "real \<Rightarrow> bool" where
  "inRange v = (0 \<le> v \<and> v \<le> 9)"

definition peers :: "nat \<times> nat \<Rightarrow> nat \<times> nat \<Rightarrow> bool" where
  "peers p q =
     (fst p = fst q \<or> snd p = snd q \<or>
      (fst p div 3 = fst q div 3 \<and> snd p div 3 = snd q div 3))"

definition clashFree :: "grid \<Rightarrow> bool" where
  "clashFree g =
     (\<forall>p q v. cell g (fst p) (snd p) = Some v \<and> cell g (fst q) (snd q) = Some v \<and> v \<noteq> 0 \<and>
              peers p q \<longrightarrow> p = q)"

definition countAt :: "grid \<Rightarrow> (nat \<times> nat) list \<Rightarrow> real \<Rightarrow> nat" where
  "countAt g ps v = length (filter (\<lambda>p. cell g (fst p) (snd p) = Some v) ps)"

definition wellFormed :: "grid \<Rightarrow> bool" where
  "wellFormed g = (isNineByNine g \<and> allCells inRange g \<and> allCells isInteger g \<and> clashFree g)"

text \<open>
  The loop of trial and error cut off after \<open>n\<close> iterations: \<open>None\<close> when it has not
  ended by then.
\<close>

fun trialRun :: "nat \<Rightarrow> sudoku \<Rightarrow> position list \<Rightarrow> int \<Rightarrow> result option" where
  "trialRun 0 s ups k = None"
| "trialRun (Suc n) s ups k =
     (case trialStep s ups k of
        Break s' \<Rightarrow> Some (Done s')
      | Throw s' \<Rightarrow> Some (Fault s')
      | Continue s' ups' k' \<Rightarrow> trialRun n s' ups' k')"

section \<open>Concrete matrices\<close>

text \<open>The 9 by 9 matrix of zeros with 5 written at columns \<open>c1\<close> and \<open>c2\<close> of row 0.\<close>

definition twoFives :: "nat \<Rightarrow> nat \<Rightarrow> grid" where
  "twoFives c1 c2 =
     (replicate 9 (replicate 9 0))[0 := (replicate 9 0)[c1 := 5, c2 := 5]]"

text \<open>
  Nine rows, the first with 5 in its first two cells, the last with no cell at all.
\<close>

definition raggedFives :: grid where
  "raggedFives =
     [[5, 5, 0, 0, 0, 0, 0, 0, 0],
      [0, 0, 0, 0, 0, 0, 0, 0, 0],
      [0, 0, 0, 0, 0, 0, 0, 0, 0],
      [0, 0, 0, 0, 0, 0, 0, 0, 0],
      [0, 0, 0, 0, 0, 0, 0, 0, 0],
      [0, 0, 0, 0, 0, 0, 0, 0, 0],
      [0, 0, 0, 0, 0, 0, 0, 0, 0],
      [0, 0, 0, 0, 0, 0, 0, 0, 0],
      []]"

definition zeroGrid :: grid where
  "zeroGrid = replicate 9 (replicate 9 0)"

definition solvedGrid :: grid where
  "solvedGrid =
     [[5, 3, 4, 6, 7, 8, 9, 1, 2],
      [6, 7, 2, 1, 9, 5, 3, 4, 8],
      [1, 9, 8, 3, 4, 2, 5, 6, 7],
      [8, 5, 9, 7, 6, 1, 4, 2, 3],
      [4, 2, 6, 8, 5, 3, 7, 9, 1],
      [7, 1, 3, 9, 2, 4, 8, 5, 6],
      [9, 6, 1, 5, 3, 7, 2, 8, 4],
      [2, 8, 7, 4, 1, 9, 6, 3, 5],
      [3, 4, 5, 2, 8, 6, 1, 7, 9]]"


text \<open>The solved matrix with its cell \<open>(0,8)\<close> emptied.\<close>

definition oneBlank :: grid where
  "oneBlank = solvedGrid[0 := (solvedGrid ! 0)[8 := 0]]"

text \<open>
  The measure of the search: per entry, twice the number of candidates not yet tried
  plus one when the cursor has passed the entry, after a leading digit that tells a
  cursor inside the list from one that fell below it. Every iteration that continues
  makes this list smaller in the lexicographic order.
\<close>

definition untested :: "position \<Rightarrow> nat" where
  "untested p = length (filter (\<lambda>i. i \<notin> set (valuesTested p)) candidates)"

definition digits :: "position list \<Rightarrow> int \<Rightarrow> nat list" where
  "digits ups k =
     (if k < 0 then 0 else 1) #
     map (\<lambda>i. 2 * untested (ups ! i) + (if int i < k then 1 else 0)) [0..<length ups]"

definition positionsInside :: "grid \<Rightarrow> position list \<Rightarrow> bool" where
  "positionsInside g ups = list_all (\<lambda>p. cell g (pos_x p) (pos_y p) \<noteq> None) ups"

text \<open>The entries of the list are cells that were empty in \<open>g1\<close>.\<close>

definition frontierOf :: "grid \<Rightarrow> position list \<Rightarrow> bool" where
  "frontierOf g1 ups = list_all (\<lambda>p. cell g1 (pos_x p) (pos_y p) = Some 0) ups"

text \<open>
  A solved matrix with three cells changed: \<open>(0,8)\<close> and \<open>(3,7)\<close> are emptied and
  \<open>(3,8)\<close> holds 2. No cell repeats a value of its row, column or group, and no value
  fits \<open>(0,8)\<close>: the row lacks only 2, which column 8 holds.
\<close>

definition deadEnd :: grid where
  "deadEnd =
     [[5, 3, 4, 6, 7, 8, 9, 1, 0],
      [6, 7, 2, 1, 9, 5, 3, 4, 8],
      [1, 9, 8, 3, 4, 2, 5, 6, 7],
      [8, 5, 9, 7, 6, 1, 4, 0, 2],
      [4, 2, 6, 8, 5, 3, 7, 9, 1],
      [7, 1, 3, 9, 2, 4, 8, 5, 6],
      [9, 6, 1, 5, 3, 7, 2, 8, 4],
      [2, 8, 7, 4, 1, 9, 6, 3, 5],
      [3, 4, 5, 2, 8, 6, 1, 7, 9]]"

text \<open>Two givens in opposite corners, every other cell empty.\<close>

definition cornerGrid :: grid where
  "cornerGrid =
     [[1, 0, 0, 0, 0, 0, 0, 0, 0],
      [0, 0, 0, 0, 0, 0, 0, 0, 0],
      [0, 0, 0, 0, 0, 0, 0, 0, 0],
      [0, 0, 0, 0, 0, 0, 0, 0, 0],
      [0, 0, 0, 0, 0, 0, 0, 0, 0],
      [0, 0, 0, 0, 0, 0, 0, 0, 0],
      [0, 0, 0, 0, 0, 0, 0, 0, 0],
      [0, 0, 0, 0, 0, 0, 0, 0, 0],
      [0, 0, 0, 0, 0, 0, 0, 0, 2]]"

text \<open>
  Row 0 lacks 1 and 2 in its first two cells, and column 1 holds a 2 lower down: trial
  and error first writes 1 at \<open>(0,0)\<close> and then finds no value for \<open>(0,1)\<close>.
\<close>

definition twoOpen :: grid where
  "twoOpen =
     [[0, 0, 3, 4, 5, 6, 7, 8, 9],
      [0, 0, 0, 0, 0, 0, 0, 0, 0],
      [0, 0, 0, 0, 0, 0, 0, 0, 0],
      [0, 0, 0, 0, 0, 0, 0, 0, 0],
      [0, 0, 0, 0, 0, 0, 0, 0, 0],
      [0, 2, 0, 0, 0, 0, 0, 0, 0],
      [0, 0, 0, 0, 0, 0, 0, 0, 0],
      [0, 0, 0, 0, 0, 0, 0, 0, 0],
      [0, 0, 0, 0, 0, 0, 0, 0, 0]]"

text \<open>
  Nine references to one row array of zeros, as \<open>Array(9).fill(Array(9).fill(0))\<close>
  builds it, and the same object with 1 to 9 in the row array.
\<close>

definition sharedZeros :: sudoku where
  "sharedZeros = \<lparr>rowRefs = replicate 9 0, heap = [replicate 9 0]\<rparr>"

definition sharedOneToNine :: sudoku where
  "sharedOneToNine = \<lparr>rowRefs = replicate 9 0, heap = [[1, 2, 3, 4, 5, 6, 7, 8, 9]]\<rparr>"

text \<open>
  The solved matrix with rows 0 and 3 emptied: once with nine row arrays of their own,
  once with rows 0 and 3 being one row array of zeros. Both read as the same matrix.
\<close>

definition twoRowsFresh :: sudoku where
  "twoRowsFresh = fresh (solvedGrid[0 := replicate 9 0, 3 := replicate 9 0])"

definition twoRowsShared :: sudoku where
  "twoRowsShared =
     \<lparr>rowRefs = [0, 1, 2, 0, 4, 5, 6, 7, 8], heap = solvedGrid[0 := replicate 9 0]\<rparr>"

definition twoRowsSharedEnd :: sudoku where
  "twoRowsSharedEnd = \<lparr>rowRefs = [0, 1, 2, 0, 4, 5, 6, 7, 8], heap = solvedGrid\<rparr>"

text \<open>
  The matrix trial and error reaches from the empty matrix when every row is an array
  of its own.
\<close>

definition firstSolution :: grid where
  "firstSolution =
     [[1, 2, 3, 4, 5, 6, 7, 8, 9],
      [4, 5, 6, 7, 8, 9, 1, 2, 3],
      [7, 8, 9, 1, 2, 3, 4, 5, 6],
      [2, 1, 4, 3, 6, 5, 8, 9, 7],
      [3, 6, 5, 8, 9, 7, 2, 1, 4],
      [8, 9, 7, 2, 1, 4, 3, 6, 5],
      [5, 3, 1, 6, 4, 2, 9, 7, 8],
      [6, 4, 2, 9, 7, 8, 5, 3, 1],
      [9, 7, 8, 5, 3, 1, 6, 4, 2]]"

section \<open>Facts about reads and writes\<close>

lemma length_view [simp]: "length (view s) = length (rowRefs s)"
  by (simp add: view_def)

lemma view_fresh [simp]: "view (fresh g) = g"
proof -
  have "map (\<lambda>a. if a < length g then g ! a else []) [0..<length g] = map (nth g) [0..<length g]"
    by (rule map_cong) simp_all
  then show ?thesis by (simp add: view_def fresh_def map_nth cong: if_cong)
qed

lemma rowRefs_setCell [simp]: "rowRefs (setCell s r c v) = rowRefs s"
  by (simp add: setCell_def)

lemma length_heap_setCell [simp]: "length (heap (setCell s r c v)) = length (heap s)"
  by (simp add: setCell_def)

lemma view_setCell_nth:
  assumes "x < length (rowRefs s)"
  shows "view (setCell s r c v) ! x =
         (if rowRefs s ! x = rowRefs s ! r then (view s ! x)[c := v] else view s ! x)"
  using assms by (simp add: view_def setCell_def)

lemma length_row_setCell [simp]:
  "x < length (rowRefs s) \<Longrightarrow> length (view (setCell s r c v) ! x) = length (view s ! x)"
  by (simp add: view_setCell_nth)

lemma cell_setCell:
  "cell (view (setCell s r c v)) x y =
     (if rowRefs s ! x = rowRefs s ! r \<and> y = c \<and> cell (view s) x y \<noteq> None then Some v
      else cell (view s) x y)"
proof (cases "x < length (rowRefs s)")
  case False
  then show ?thesis by (simp add: cell_def)
next
  case True
  then show ?thesis by (auto simp: cell_def view_setCell_nth)
qed

lemma cell_setCell_same:
  "cell (view s) r c \<noteq> None \<Longrightarrow> cell (view (setCell s r c v)) r c = Some v"
  by (simp add: cell_setCell)

lemma cell_setCell_inside:
  "cell (view s) x y \<noteq> None \<Longrightarrow> cell (view (setCell s r c v)) x y \<noteq> None"
  by (simp add: cell_setCell)

lemma cell_heap:
  "cell (view s) r c = Some w \<Longrightarrow> cell (heap s) (rowRefs s ! r) c = Some w"
  by (auto simp: cell_def view_def split: if_splits)

section \<open>The sweeps end\<close>

lemma candidates_nonzero: "i \<in> set candidates \<Longrightarrow> i \<noteq> 0"
  by (auto simp: candidates_def)

lemma zeros_update:
  "y < length row \<Longrightarrow> row ! y = 0 \<Longrightarrow> v \<noteq> 0 \<Longrightarrow>
   Suc (length (filter (\<lambda>w. w = 0) (row[y := v]))) = length (filter (\<lambda>w. w = (0::real)) row)"
proof (induction row arbitrary: y)
  case Nil
  then show ?case by simp
next
  case (Cons a row)
  then show ?case by (cases y) auto
qed

lemma zeroCount_update:
  assumes "cell h a y = Some 0" and "v \<noteq> 0"
  shows "zeroCount (h[a := (h ! a)[y := v]]) < zeroCount h"
proof -
  let ?f = "\<lambda>row. length (filter (\<lambda>w. w = (0::real)) row)"
  from assms(1) have a: "a < length h" and y: "y < length (h ! a)" and z: "h ! a ! y = 0"
    by (auto simp: cell_def split: if_splits)
  have s: "Suc (?f ((h ! a)[y := v])) = ?f (h ! a)"
    using zeros_update [OF y z assms(2)] .
  have "zeroCount (h[a := (h ! a)[y := v]]) = sum_list ((map ?f h)[a := ?f ((h ! a)[y := v])])"
    by (simp add: zeroCount_def map_update)
  also have "\<dots> = sum_list (map ?f h) + ?f ((h ! a)[y := v]) - ?f (h ! a)"
    using a by (simp add: sum_list_update)
  finally have e: "zeroCount (h[a := (h ! a)[y := v]]) =
                   zeroCount h + ?f ((h ! a)[y := v]) - ?f (h ! a)"
    by (simp add: zeroCount_def)
  have "?f (h ! a) \<le> zeroCount h"
    unfolding zeroCount_def using a
    by (intro member_le_sum_list) (auto intro!: image_eqI [where x = "h ! a"])
  with e s show ?thesis by linarith
qed

lemma zeroCount_setCell:
  assumes "cell (view s) x y = Some 0" and "v \<noteq> 0"
  shows "zeroCount (heap (setCell s x y v)) < zeroCount (heap s)"
  using zeroCount_update [OF cell_heap [OF assms(1)] assms(2)] by (simp add: setCell_def)

lemma sweepCell_bound:
  assumes "sweepBound s st"
  shows "sweepBound s (sweepCell x y st)"
proof (cases "cell (view (fst st)) x y = Some 0")
  case False
  then show ?thesis using assms by (simp add: sweepCell_def)
next
  case True
  show ?thesis
  proof (cases "find (\<lambda>i. isValueValidInPosition (view (fst st)) x y i True) candidates")
    case None
    then show ?thesis using assms True by (simp add: sweepCell_def)
  next
    case (Some i)
    then have "i \<in> set candidates" by (auto simp: find_Some_iff)
    then have "i \<noteq> 0" by (rule candidates_nonzero)
    from zeroCount_setCell [OF True this] assms Some True show ?thesis
      by (simp add: sweepCell_def sweepBound_def)
  qed
qed

lemma sweepRow_bound: "sweepBound s st \<Longrightarrow> sweepBound s (sweepRow x st)"
  unfolding sweepRow_def
  by (rule fold_invariant [where Q = "\<lambda>_. True"]) (simp_all add: sweepCell_bound)

lemma sweep_bound: "sweepBound s (sweep s)"
  unfolding sweep_def
  by (rule fold_invariant [where Q = "\<lambda>_. True"]) (simp_all add: sweepRow_bound, simp add: sweepBound_def)

termination propagate
  by (relation "measure (\<lambda>s. zeroCount (heap s))") (use sweep_bound in \<open>auto simp: sweepBound_def\<close>)

declare propagate.simps [simp del]

section \<open>Validation\<close>

lemma twoFives_all:
  "list_all (\<lambda>c2. list_all (\<lambda>c1. validate (twoFives c1 c2) = Some (ConstraintError 0 c1))
                       [0..<c2]) [0..<9]"
  by code_simp

text \<open>
  Claim C3, as amended. An object whose matrix is the 9 by 9 matrix of zeros with 5 at
  two cells of row 0 fails construction with the cell error, and the coordinate
  reported is that of the first of the two cells, the one in the earlier column: the
  scan goes left to right and the count over the whole row is already 2 when it
  reaches that cell.
\<close>

theorem two_fives_reports_first:
  "c1 < c2 \<Longrightarrow> c2 < 9 \<Longrightarrow> view s = twoFives c1 c2 \<Longrightarrow>
   construct s = Inl (ConstraintError 0 c1)"
  using twoFives_all by (simp add: list_all_iff construct_def)

theorem two_fives_reports_first_witness:
  "(2::nat) < 6 \<and> (6::nat) < 9 \<and> view (fresh (twoFives 2 6)) = twoFives 2 6 \<and>
   construct (fresh (twoFives 2 6)) = Inl (ConstraintError 0 2)"
proof -
  have a: "(2::nat) < 6" and b: "(6::nat) < 9" by simp_all
  have c: "view (fresh (twoFives 2 6)) = twoFives 2 6" by (rule view_fresh)
  from two_fives_reports_first [OF a b c] c show ?thesis by simp
qed

text \<open>
  Claim C3 as stated fails: with 5 at columns 2 and 6 of row 0, the error does not carry
  the coordinate of the second cell.
\<close>

theorem two_fives_not_second: "construct (fresh (twoFives 2 6)) \<noteq> Inl (ConstraintError 0 6)"
  by code_simp

lemma validateCells_find:
  "validateCells g x ys = map_option (ConstraintError x) (find (cellInvalid g x) ys)"
  by (induction ys) simp_all

lemma validateRows_find:
  "validateRows g xs =
     (case find (\<lambda>x. rowResult g x \<noteq> None) xs of None \<Rightarrow> None | Some x \<Rightarrow> rowResult g x)"
  by (induction xs) (auto simp: rowResult_def split: option.splits)

lemma validateCells_None: "validateCells g x ys = None \<longleftrightarrow> (\<forall>y\<in>set ys. \<not> cellInvalid g x y)"
  by (auto simp: validateCells_find find_None_iff)

lemma rowResult_None:
  "rowResult g x = None \<longleftrightarrow> length (g ! x) = 9 \<and> (\<forall>y<9. \<not> cellInvalid g x y)"
  by (auto simp: rowResult_def validateCells_None)

lemma rowResult_structural: "rowResult g x = Some StructuralError \<longleftrightarrow> length (g ! x) \<noteq> 9"
  by (auto simp: rowResult_def validateCells_find)

lemma rowResult_constraint:
  "rowResult g x = Some (ConstraintError a y) \<longleftrightarrow>
     length (g ! x) = 9 \<and> a = x \<and> y < 9 \<and> cellInvalid g x y \<and> (\<forall>y'<y. \<not> cellInvalid g x y')"
proof (cases "length (g ! x) = 9")
  case False
  then show ?thesis by (simp add: rowResult_def)
next
  case True
  have "find (cellInvalid g x) [0..<9] = Some y \<longleftrightarrow>
        y < 9 \<and> cellInvalid g x y \<and> (\<forall>y'<y. \<not> cellInvalid g x y')"
    unfolding find_Some_iff by (auto simp del: upt_Suc)
  with True show ?thesis
    by (auto simp: rowResult_def validateCells_find)
qed

lemma validate_rows:
  "validate g = (if length g \<noteq> 9 then Some StructuralError
     else (case find (\<lambda>x. rowResult g x \<noteq> None) [0..<9] of
             None \<Rightarrow> None | Some x \<Rightarrow> rowResult g x))"
  by (simp add: validate_def validateRows_find)

lemma find_first_row:
  "find P [0..<9] = Some (x::nat) \<longleftrightarrow> x < 9 \<and> P x \<and> (\<forall>x'<x. \<not> P x')"
  unfolding find_Some_iff by (auto simp del: upt_Suc)

lemma validate_structural:
  "validate g = Some StructuralError \<longleftrightarrow>
     (length g \<noteq> 9 \<or>
      (\<exists>r<9. length (g ! r) \<noteq> 9 \<and>
         (\<forall>x<r. length (g ! x) = 9 \<and> (\<forall>y<9. \<not> cellInvalid g x y))))"
proof (cases "length g = 9")
  case False
  then show ?thesis by (simp add: validate_def)
next
  case True
  show ?thesis
  proof
    assume "validate g = Some StructuralError"
    with True obtain r where "find (\<lambda>x. rowResult g x \<noteq> None) [0..<9] = Some r"
      "rowResult g r = Some StructuralError"
      by (auto simp: validate_rows split: option.splits)
    then have "r < 9" "length (g ! r) \<noteq> 9" "\<forall>x<r. rowResult g x = None"
      by (auto simp: find_first_row rowResult_structural)
    then show "length g \<noteq> 9 \<or> (\<exists>r<9. length (g ! r) \<noteq> 9 \<and>
         (\<forall>x<r. length (g ! x) = 9 \<and> (\<forall>y<9. \<not> cellInvalid g x y)))"
      by (auto simp: rowResult_None)
  next
    assume "length g \<noteq> 9 \<or> (\<exists>r<9. length (g ! r) \<noteq> 9 \<and>
         (\<forall>x<r. length (g ! x) = 9 \<and> (\<forall>y<9. \<not> cellInvalid g x y)))"
    with True obtain r where r: "r < 9" "length (g ! r) \<noteq> 9"
      "\<forall>x<r. length (g ! x) = 9 \<and> (\<forall>y<9. \<not> cellInvalid g x y)" by blast
    then have "rowResult g r = Some StructuralError" "\<forall>x<r. rowResult g x = None"
      by (simp_all add: rowResult_structural rowResult_None)
    then have "find (\<lambda>x. rowResult g x \<noteq> None) [0..<9] = Some r"
      using r(1) by (simp add: find_first_row)
    then show "validate g = Some StructuralError"
      using True \<open>rowResult g r = Some StructuralError\<close> by (simp add: validate_rows)
  qed
qed

lemma validate_constraint:
  "validate g = Some (ConstraintError x y) \<longleftrightarrow>
     length g = 9 \<and> x < 9 \<and> y < 9 \<and> (\<forall>x'\<le>x. length (g ! x') = 9) \<and> cellInvalid g x y \<and>
     (\<forall>y'<y. \<not> cellInvalid g x y') \<and> (\<forall>x'<x. \<forall>y'<9. \<not> cellInvalid g x' y')"
proof (cases "length g = 9")
  case False
  then show ?thesis by (simp add: validate_def)
next
  case True
  show ?thesis
  proof
    assume "validate g = Some (ConstraintError x y)"
    with True obtain r where "find (\<lambda>x. rowResult g x \<noteq> None) [0..<9] = Some r"
      "rowResult g r = Some (ConstraintError x y)"
      by (auto simp: validate_rows split: option.splits)
    then have "r < 9" "\<forall>x'<r. rowResult g x' = None" "length (g ! r) = 9" "x = r" "y < 9"
      "cellInvalid g r y" "\<forall>y'<y. \<not> cellInvalid g r y'"
      by (auto simp: find_first_row rowResult_constraint)
    then show "length g = 9 \<and> x < 9 \<and> y < 9 \<and> (\<forall>x'\<le>x. length (g ! x') = 9) \<and>
      cellInvalid g x y \<and> (\<forall>y'<y. \<not> cellInvalid g x y') \<and>
      (\<forall>x'<x. \<forall>y'<9. \<not> cellInvalid g x' y')"
      using True by (auto simp: rowResult_None le_less)
  next
    assume a: "length g = 9 \<and> x < 9 \<and> y < 9 \<and> (\<forall>x'\<le>x. length (g ! x') = 9) \<and>
      cellInvalid g x y \<and> (\<forall>y'<y. \<not> cellInvalid g x y') \<and>
      (\<forall>x'<x. \<forall>y'<9. \<not> cellInvalid g x' y')"
    then have "rowResult g x = Some (ConstraintError x y)" "\<forall>x'<x. rowResult g x' = None"
      by (simp_all add: rowResult_constraint rowResult_None)
    then have "find (\<lambda>x. rowResult g x \<noteq> None) [0..<9] = Some x"
      using a by (simp add: find_first_row)
    then show "validate g = Some (ConstraintError x y)"
      using True \<open>rowResult g x = Some (ConstraintError x y)\<close> by (simp add: validate_rows)
  qed
qed

lemma validate_None:
  "validate g = None \<longleftrightarrow> isNineByNine g \<and> (\<forall>x<9. \<forall>y<9. \<not> cellInvalid g x y)"
proof (cases "length g = 9")
  case False
  then show ?thesis by (simp add: validate_def isNineByNine_def)
next
  case True
  have "validate g = None \<longleftrightarrow> (\<forall>x<9. rowResult g x = None)"
    using True by (auto simp: validate_rows find_None_iff find_first_row split: option.splits)
  then show ?thesis
    using True by (auto simp: rowResult_None isNineByNine_def list_all_length)
qed


lemma construct_iff:
  "construct s = Inl e \<longleftrightarrow> validate (view s) = Some e"
  "construct s = Inr s' \<longleftrightarrow> validate (view s) = None \<and> s' = s"
  by (auto simp: construct_def split: option.splits)

lemma not_nine_fails:
  assumes "\<not> isNineByNine (view s)"
  shows "construct s = Inl StructuralError \<or>
         (\<exists>x y r. construct s = Inl (ConstraintError x y) \<and> x < r \<and> r < 9 \<and>
                  length (view s ! r) \<noteq> 9)"
proof (cases "validate (view s)")
  case None
  with assms show ?thesis by (simp add: validate_None)
next
  case (Some e)
  show ?thesis
  proof (cases e)
    case StructuralError
    with Some show ?thesis by (simp add: construct_iff)
  next
    case (ConstraintError x y)
    with Some have v: "validate (view s) = Some (ConstraintError x y)" by simp
    then have l: "length (view s) = 9" and x: "x < 9"
      and rows: "\<forall>x'\<le>x. length (view s ! x') = 9"
      by (simp_all add: validate_constraint)
    from assms l obtain r where r: "r < 9" "length (view s ! r) \<noteq> 9"
      by (auto simp: isNineByNine_def list_all_length)
    with rows have "x < r" by (meson not_le_imp_less)
    with v r show ?thesis by (auto simp: construct_iff)
  qed
qed

lemma nine_not_structural:
  assumes "isNineByNine (view s)"
  shows "construct s \<noteq> Inl StructuralError"
proof -
  from assms have "length (view s) = 9" and "\<forall>r<9. length (view s ! r) = 9"
    by (auto simp: isNineByNine_def list_all_length)
  then show ?thesis by (simp add: construct_iff validate_structural)
qed

text \<open>
  Claim C6, as amended. Construction fails with the structural error exactly when the
  matrix does not have 9 rows, or has 9 rows and a row \<open>r\<close> of another length such that
  every row before \<open>r\<close> has 9 cells, none of which fails the check of a cell. It fails
  with the error of cell \<open>(x, y)\<close> exactly when the matrix has 9 rows, the rows up to
  \<open>x\<close> have 9 cells each, and \<open>(x, y)\<close> is the first cell, row by row and left to
  right, that fails the check of a cell. So a matrix that is exactly 9 by 9 never fails
  with the structural error, and a matrix that is not 9 by 9 always fails construction:
  with the structural error, or with the error of a cell in a row before one of its
  rows of another length.
\<close>

theorem structural_error_cases:
  "(construct s = Inl StructuralError \<longleftrightarrow>
      (length (view s) \<noteq> 9 \<or>
       (\<exists>r<9. length (view s ! r) \<noteq> 9 \<and>
          (\<forall>x<r. length (view s ! x) = 9 \<and> (\<forall>y<9. \<not> cellInvalid (view s) x y))))) \<and>
   (\<forall>x y. construct s = Inl (ConstraintError x y) \<longleftrightarrow>
      (length (view s) = 9 \<and> x < 9 \<and> y < 9 \<and> (\<forall>x'\<le>x. length (view s ! x') = 9) \<and>
       cellInvalid (view s) x y \<and> (\<forall>y'<y. \<not> cellInvalid (view s) x y') \<and>
       (\<forall>x'<x. \<forall>y'<9. \<not> cellInvalid (view s) x' y'))) \<and>
   (isNineByNine (view s) \<longrightarrow> construct s \<noteq> Inl StructuralError) \<and>
   (\<not> isNineByNine (view s) \<longrightarrow>
      construct s = Inl StructuralError \<or>
      (\<exists>x y r. construct s = Inl (ConstraintError x y) \<and> x < r \<and> r < 9 \<and>
               length (view s ! r) \<noteq> 9))"
proof (intro conjI allI impI)
  show "construct s = Inl StructuralError \<longleftrightarrow>
      (length (view s) \<noteq> 9 \<or>
       (\<exists>r<9. length (view s ! r) \<noteq> 9 \<and>
          (\<forall>x<r. length (view s ! x) = 9 \<and> (\<forall>y<9. \<not> cellInvalid (view s) x y))))"
    unfolding construct_iff by (rule validate_structural)
next
  fix x y
  show "construct s = Inl (ConstraintError x y) \<longleftrightarrow>
      (length (view s) = 9 \<and> x < 9 \<and> y < 9 \<and> (\<forall>x'\<le>x. length (view s ! x') = 9) \<and>
       cellInvalid (view s) x y \<and> (\<forall>y'<y. \<not> cellInvalid (view s) x y') \<and>
       (\<forall>x'<x. \<forall>y'<9. \<not> cellInvalid (view s) x' y'))"
    unfolding construct_iff by (rule validate_constraint)
next
  assume "isNineByNine (view s)"
  then show "construct s \<noteq> Inl StructuralError" by (rule nine_not_structural)
next
  assume "\<not> isNineByNine (view s)"
  then show "construct s = Inl StructuralError \<or>
      (\<exists>x y r. construct s = Inl (ConstraintError x y) \<and> x < r \<and> r < 9 \<and>
               length (view s ! r) \<noteq> 9)"
    by (rule not_nine_fails)
qed

theorem structural_error_cases_witness:
  "isNineByNine (view (fresh zeroGrid)) \<and> construct (fresh zeroGrid) \<noteq> Inl StructuralError \<and>
   \<not> isNineByNine (view (fresh raggedFives)) \<and> cellInvalid (view (fresh raggedFives)) 0 0 \<and>
   construct (fresh raggedFives) = Inl (ConstraintError 0 0)"
proof -
  have a: "isNineByNine (view (fresh zeroGrid))" by code_simp
  have b: "\<not> isNineByNine (view (fresh raggedFives))" by code_simp
  have c: "cellInvalid (view (fresh raggedFives)) 0 0" by code_simp
  have d: "length (view (fresh raggedFives)) = 9" by code_simp
  have e: "length (view (fresh raggedFives) ! 0) = 9" by code_simp
  from structural_error_cases [of "fresh zeroGrid"] a
  have f: "construct (fresh zeroGrid) \<noteq> Inl StructuralError" by blast
  have "length (view (fresh raggedFives)) = 9 \<and> (0::nat) < 9 \<and> (0::nat) < 9 \<and>
       (\<forall>x'\<le>0. length (view (fresh raggedFives) ! x') = 9) \<and>
       cellInvalid (view (fresh raggedFives)) 0 0 \<and>
       (\<forall>y'<0. \<not> cellInvalid (view (fresh raggedFives)) 0 y') \<and>
       (\<forall>x'<0. \<forall>y'<9. \<not> cellInvalid (view (fresh raggedFives)) x' y')"
    using c d e by simp
  with structural_error_cases [of "fresh raggedFives"]
  have "construct (fresh raggedFives) = Inl (ConstraintError 0 0)" by blast
  with a b c f show ?thesis by blast
qed

text \<open>
  Claim C6 as stated fails: this matrix has a row without 9 cells, and construction
  fails with the error of cell \<open>(0,0)\<close>, not with the structural error.
\<close>

theorem ragged_fives_cell_error:
  "construct (fresh raggedFives) = Inl (ConstraintError 0 0) \<and>
   length (view (fresh raggedFives) ! 8) \<noteq> 9"
  by code_simp

section \<open>A solved matrix\<close>

text \<open>
  Claim C8. When no cell of the matrix is 0 as \<open>solve\<close> is called, \<open>solve\<close> returns
  with the object it was given: no row array has been written, so no cell has changed,
  and the matrix is solved as it was.
\<close>

theorem solve_solved_unchanged: "isSolved (view s) \<Longrightarrow> solve s = Some (Done s)"
  by (simp add: solve_def propagate.simps)

theorem solve_solved_unchanged_witness:
  "isSolved (view (fresh solvedGrid)) \<and> solve (fresh solvedGrid) = Some (Done (fresh solvedGrid))"
proof -
  have a: "isSolved (view (fresh solvedGrid))" by code_simp
  show ?thesis by (rule conjI [OF a solve_solved_unchanged [OF a]])
qed

section \<open>The sweep\<close>



lemma set_groupCells: "set (groupCells r c) = spec_block r c"
  by (auto simp: groupCells_def spec_block_def Let_def mult.commute)

lemma distinct_groupCells: "distinct (groupCells r c)"
proof -
  have "groupCells r c =
        List.product [(r div 3) * 3..<(r div 3) * 3 + 3] [(c div 3) * 3..<(c div 3) * 3 + 3]"
    by (simp add: groupCells_def Let_def product_concat_map)
  then show ?thesis by (simp add: distinct_product)
qed






lemma candidates_sorted: "sorted candidates" "distinct candidates"
  by (simp_all add: candidates_def)


lemma nine_setCell: "isNineByNine (view s) \<Longrightarrow> isNineByNine (view (setCell s r c v))"
  by (simp add: isNineByNine_def list_all_length)













section \<open>One iteration of trial and error\<close>

lemma setCell_twice: "setCell (setCell s r c v) r c w = setCell s r c w"
  by (cases "rowRefs s ! r < length (heap s)") (simp_all add: setCell_def list_update_beyond)

lemma zero_cell_not_solved: "cell g r c = Some 0 \<Longrightarrow> \<not> isSolved g"
  by (auto simp: cell_def isSolved_def list_all_length split: if_splits)

section \<open>Trial and error ends\<close>

lemma lex_lessI:
  assumes "length xs = length ys" and "i < length xs"
    and "\<forall>j<i. xs ! j = ys ! j" and "xs ! i < (ys ! i :: nat)"
  shows "(xs, ys) \<in> lex less_than"
proof -
  have t: "take i xs = take i ys"
    using assms(1-3) by (auto intro: nth_take_lemma)
  have "xs = take i xs @ xs ! i # drop (Suc i) xs"
    using assms(2) by (simp add: id_take_nth_drop)
  moreover have "ys = take i xs @ ys ! i # drop (Suc i) ys"
    using assms(1,2) t by (simp add: id_take_nth_drop)
  ultimately show ?thesis
    using assms(1,4) unfolding lex_conv by (auto simp: less_than_iff)
qed

lemma filter_shrinks:
  assumes "x \<in> set xs" and "P x" and "\<not> Q x" and "\<And>y. Q y \<Longrightarrow> P y"
  shows "length (filter Q xs) < length (filter P xs)"
proof -
  have "filter Q xs = filter Q (filter P xs)"
    using assms(4) by (auto intro: filter_cong)
  moreover have "length (filter Q (filter P xs)) < length (filter P xs)"
    using assms(1-3) by (intro length_filter_less [of x]) auto
  ultimately show ?thesis by simp
qed

lemma untested_push:
  assumes "i \<in> set candidates" and "i \<notin> set (valuesTested p)"
  shows "untested (p\<lparr>valuesTested := valuesTested p @ [i]\<rparr>) < untested p"
  unfolding untested_def using assms
  by (intro filter_shrinks [of i]) auto

lemma digits_length [simp]: "length (digits ups k) = Suc (length ups)"
  by (simp add: digits_def)

lemma digits_0: "digits ups k ! 0 = (if k < 0 then 0 else 1)"
  by (simp add: digits_def)

lemma digits_Suc:
  "m < length ups \<Longrightarrow>
   digits ups k ! Suc m = 2 * untested (ups ! m) + (if int m < k then 1 else 0)"
  by (simp add: digits_def)

lemma positionsInside_nth:
  "positionsInside g ups \<Longrightarrow> n < length ups \<Longrightarrow> cell g (pos_x (ups ! n)) (pos_y (ups ! n)) \<noteq> None"
  by (simp add: positionsInside_def list_all_length)

lemma digits_advance:
  assumes n: "n < length ups" and i: "i \<in> set candidates" "i \<notin> set (valuesTested (ups ! n))"
  shows "(digits (ups[n := (ups ! n)\<lparr>valuesTested := valuesTested (ups ! n) @ [i]\<rparr>]) (int n + 1),
          digits ups (int n)) \<in> lex less_than"
proof (rule lex_lessI [where i = "Suc n"])
  let ?ups' = "ups[n := (ups ! n)\<lparr>valuesTested := valuesTested (ups ! n) @ [i]\<rparr>]"
  show "length (digits ?ups' (int n + 1)) = length (digits ups (int n))" by simp
  show "Suc n < length (digits ?ups' (int n + 1))" using n by simp
  show "\<forall>j<Suc n. digits ?ups' (int n + 1) ! j = digits ups (int n) ! j"
  proof (intro allI impI)
    fix j assume j: "j < Suc n"
    show "digits ?ups' (int n + 1) ! j = digits ups (int n) ! j"
    proof (cases j)
      case 0
      then show ?thesis by (simp add: digits_0)
    next
      case (Suc m)
      with j n have "m < n" "m < length ups" by auto
      then show ?thesis using Suc by (simp add: digits_Suc)
    qed
  qed
  show "digits ?ups' (int n + 1) ! Suc n < digits ups (int n) ! Suc n"
    using n untested_push [OF i] by (simp add: digits_Suc)
qed

lemma digits_retreat:
  assumes n: "n < length ups"
  shows "(digits (ups[n := q]) (int n - 1), digits ups (int n)) \<in> lex less_than"
proof (cases n)
  case 0
  show ?thesis
    by (rule lex_lessI [where i = 0]) (simp_all add: digits_0 0)
next
  case (Suc m)
  show ?thesis
  proof (rule lex_lessI [where i = "Suc m"])
    show "length (digits (ups[n := q]) (int n - 1)) = length (digits ups (int n))" by simp
    show "Suc m < length (digits (ups[n := q]) (int n - 1))" using n Suc by simp
    show "\<forall>j<Suc m. digits (ups[n := q]) (int n - 1) ! j = digits ups (int n) ! j"
    proof (intro allI impI)
      fix j assume j: "j < Suc m"
      show "digits (ups[n := q]) (int n - 1) ! j = digits ups (int n) ! j"
      proof (cases j)
        case 0
        then show ?thesis using Suc by (simp add: digits_0)
      next
        case (Suc l)
        with j n \<open>n = Suc m\<close> have "l < m" "l < length ups" "l \<noteq> n" by auto
        then show ?thesis using Suc \<open>n = Suc m\<close> by (simp add: digits_Suc)
      qed
    qed
    show "digits (ups[n := q]) (int n - 1) ! Suc m < digits ups (int n) ! Suc m"
      using n Suc by (simp add: digits_Suc)
  qed
qed

lemma trialStep_Continue:
  assumes st: "trialStep s ups k = Continue s' ups' k'" and ins: "positionsInside (view s) ups"
  shows "0 \<le> k \<and> nat k < length ups \<and>
         ((\<exists>i. i \<in> set candidates \<and> i \<notin> set (valuesTested (ups ! nat k)) \<and>
               isValueValidInPosition
                 (view (setCell s (pos_x (ups ! nat k)) (pos_y (ups ! nat k)) 0))
                 (pos_x (ups ! nat k)) (pos_y (ups ! nat k)) i False \<and>
               s' = setCell (setCell s (pos_x (ups ! nat k)) (pos_y (ups ! nat k)) 0)
                      (pos_x (ups ! nat k)) (pos_y (ups ! nat k)) i \<and>
               ups' = ups[nat k := (ups ! nat k)\<lparr>valuesTested := valuesTested (ups ! nat k) @ [i]\<rparr>] \<and>
               k' = k + 1) \<or>
          (find (\<lambda>i. \<not> isValueTested (valuesTested (ups ! nat k)) i \<and>
                  isValueValidInPosition
                    (view (setCell s (pos_x (ups ! nat k)) (pos_y (ups ! nat k)) 0))
                    (pos_x (ups ! nat k)) (pos_y (ups ! nat k)) i False) candidates = None \<and>
           s' = setCell s (pos_x (ups ! nat k)) (pos_y (ups ! nat k)) 0 \<and>
           ups' = ups[nat k := (ups ! nat k)\<lparr>valuesTested := []\<rparr>] \<and> k' = k - 1))"
proof -
  from st have k: "0 \<le> k" "nat k < length ups"
    by (auto simp: trialStep_def split: if_splits)
  let ?p = "ups ! nat k"
  let ?s0 = "setCell s (pos_x ?p) (pos_y ?p) 0"
  have "cell (view s) (pos_x ?p) (pos_y ?p) \<noteq> None"
    using ins k by (simp add: positionsInside_nth)
  then have "cell (view ?s0) (pos_x ?p) (pos_y ?p) = Some 0" by (rule cell_setCell_same)
  then have ns: "\<not> isSolved (view ?s0)" by (rule zero_cell_not_solved)
  from k have nb: "\<not> int (length ups) - 1 < k" "\<not> k < 0" by auto
  show ?thesis
  proof (cases "find (\<lambda>i. \<not> isValueTested (valuesTested ?p) i \<and>
                  isValueValidInPosition (view ?s0) (pos_x ?p) (pos_y ?p) i False) candidates")
    case None
    with st nb ns have "s' = setCell ?s0 (pos_x ?p) (pos_y ?p) 0"
      "ups' = ups[nat k := ?p\<lparr>valuesTested := []\<rparr>]" "k' = k - 1"
      by (simp_all add: trialStep_def Let_def)
    then show ?thesis using k None by (simp add: setCell_twice)
  next
    case (Some i)
    then have "i \<in> set candidates" "i \<notin> set (valuesTested ?p)"
      "isValueValidInPosition (view ?s0) (pos_x ?p) (pos_y ?p) i False"
      by (auto simp: find_Some_iff isValueTested_def)
    moreover from st nb Some have
      "s' = setCell ?s0 (pos_x ?p) (pos_y ?p) i"
      "ups' = ups[nat k := ?p\<lparr>valuesTested := valuesTested ?p @ [i]\<rparr>]" "k' = k + 1"
      by (simp_all add: trialStep_def Let_def)
    ultimately show ?thesis using k by blast
  qed
qed

lemma trialStep_decreases:
  assumes st: "trialStep s ups k = Continue s' ups' k'" and ins: "positionsInside (view s) ups"
  shows "(digits ups' k', digits ups k) \<in> lex less_than"
proof -
  from trialStep_Continue [OF st ins] have k: "0 \<le> k" "nat k < length ups"
    and c: "(\<exists>i. i \<in> set candidates \<and> i \<notin> set (valuesTested (ups ! nat k)) \<and>
               ups' = ups[nat k := (ups ! nat k)\<lparr>valuesTested := valuesTested (ups ! nat k) @ [i]\<rparr>] \<and>
               k' = k + 1) \<or>
          (ups' = ups[nat k := (ups ! nat k)\<lparr>valuesTested := []\<rparr>] \<and> k' = k - 1)"
    by auto
  from k have e: "k = int (nat k)" by simp
  from c show ?thesis
  proof
    assume "\<exists>i. i \<in> set candidates \<and> i \<notin> set (valuesTested (ups ! nat k)) \<and>
               ups' = ups[nat k := (ups ! nat k)\<lparr>valuesTested := valuesTested (ups ! nat k) @ [i]\<rparr>] \<and>
               k' = k + 1"
    then obtain i where i: "i \<in> set candidates" "i \<notin> set (valuesTested (ups ! nat k))"
      and u: "ups' = ups[nat k := (ups ! nat k)\<lparr>valuesTested := valuesTested (ups ! nat k) @ [i]\<rparr>]"
      and k': "k' = k + 1" by blast
    from digits_advance [OF k(2) i] show ?thesis unfolding u k' using e by simp
  next
    assume "ups' = ups[nat k := (ups ! nat k)\<lparr>valuesTested := []\<rparr>] \<and> k' = k - 1"
    then show ?thesis using digits_retreat [OF k(2)] e by simp
  qed
qed

lemma wf_digits: "wf (inv_image (lex less_than) (\<lambda>s. digits (fst s) (snd s)))"
  by (intro wf_inv_image wf_lex wf_less_than)

lemma trialLoop_rule:
  assumes inv: "Inv s ups k"
    and step: "\<And>s ups k s' ups' k'.
        Inv s ups k \<Longrightarrow> trialStep s ups k = Continue s' ups' k' \<Longrightarrow> Inv s' ups' k'"
    and inside: "\<And>s ups k. Inv s ups k \<Longrightarrow> positionsInside (view s) ups"
    and break: "\<And>s ups k s'. Inv s ups k \<Longrightarrow> trialStep s ups k = Break s' \<Longrightarrow> Q (Done s')"
    and throw: "\<And>s ups k s'. Inv s ups k \<Longrightarrow> trialStep s ups k = Throw s' \<Longrightarrow> Q (Fault s')"
  shows "\<exists>r. trialLoop s ups k = Some r \<and> Q r"
proof -
  have "\<forall>s. Inv s (fst u) (snd u) \<longrightarrow> (\<exists>r. trialLoop s (fst u) (snd u) = Some r \<and> Q r)" for u
  proof (induction u rule: wf_induct_rule [OF wf_digits])
    case (1 u)
    show ?case
    proof (intro allI impI)
      fix s assume i: "Inv s (fst u) (snd u)"
      show "\<exists>r. trialLoop s (fst u) (snd u) = Some r \<and> Q r"
      proof (cases "trialStep s (fst u) (snd u)")
        case (Continue s' ups' k')
        from trialStep_decreases [OF Continue inside [OF i]]
        have "((ups', k'), u) \<in> inv_image (lex less_than) (\<lambda>s. digits (fst s) (snd s))"
          by simp
        from 1 [OF this] step [OF i Continue]
        obtain r where "trialLoop s' ups' k' = Some r" "Q r" by auto
        then show ?thesis
          by (subst trialLoop.simps) (simp add: Continue)
      next
        case (Break s')
        from break [OF i Break] show ?thesis
          by (subst trialLoop.simps) (simp add: Break)
      next
        case (Throw s')
        from throw [OF i Throw] show ?thesis
          by (subst trialLoop.simps) (simp add: Throw)
      qed
    qed
  qed
  from this [of "(ups, k)"] inv show ?thesis by simp
qed

section \<open>Invariants of \<open>solve\<close>\<close>

lemma valid_True_False:
  "isValueValidInPosition g x y v True \<Longrightarrow> isValueValidInPosition g x y v False"
  by (simp add: isValueValidInPosition_def)

lemma sweepCell_rule:
  assumes "I (fst st)"
    and "\<And>h x y v. I h \<Longrightarrow> cell (view h) x y = Some 0 \<Longrightarrow> v \<in> set candidates \<Longrightarrow>
           isValueValidInPosition (view h) x y v False \<Longrightarrow> I (setCell h x y v)"
  shows "I (fst (sweepCell x y st))"
proof (cases "cell (view (fst st)) x y = Some 0")
  case False
  then show ?thesis using assms(1) by (simp add: sweepCell_def)
next
  case True
  show ?thesis
  proof (cases "find (\<lambda>i. isValueValidInPosition (view (fst st)) x y i True) candidates")
    case None
    then show ?thesis using assms(1) True by (simp add: sweepCell_def)
  next
    case (Some i)
    then have "i \<in> set candidates" "isValueValidInPosition (view (fst st)) x y i False"
      by (auto simp: find_Some_iff intro: valid_True_False)
    from assms(2) [OF assms(1) True this] Some True show ?thesis
      by (simp add: sweepCell_def)
  qed
qed

lemma sweep_rule:
  assumes "I s"
    and w: "\<And>h x y v. I h \<Longrightarrow> cell (view h) x y = Some 0 \<Longrightarrow> v \<in> set candidates \<Longrightarrow>
           isValueValidInPosition (view h) x y v False \<Longrightarrow> I (setCell h x y v)"
  shows "I (fst (sweep s))"
proof -
  have row: "I (fst (sweepRow x st))" if "I (fst st)" for x st
    unfolding sweepRow_def
    by (rule fold_invariant [where Q = "\<lambda>_. True" and P = "\<lambda>st. I (fst st)"])
       (simp_all add: that sweepCell_rule [where I = I, OF _ w])
  show ?thesis
    unfolding sweep_def
    by (rule fold_invariant [where Q = "\<lambda>_. True" and P = "\<lambda>st. I (fst st)"])
       (simp_all add: assms(1) row)
qed

lemma propagate_rule:
  assumes "I s"
    and w: "\<And>h x y v. I h \<Longrightarrow> cell (view h) x y = Some 0 \<Longrightarrow> v \<in> set candidates \<Longrightarrow>
           isValueValidInPosition (view h) x y v False \<Longrightarrow> I (setCell h x y v)"
  shows "I (propagate s)"
  using assms(1)
proof (induction s rule: propagate.induct)
  case (1 s)
  show ?case
  proof (cases "isSolved (view s)")
    case True
    then show ?thesis using "1.prems" by (simp add: propagate.simps)
  next
    case False
    have sw: "I (fst (sweep s))" using "1.prems" w by (rule sweep_rule)
    show ?thesis
    proof (cases "snd (sweep s)")
      case True
      from "1.IH" [OF False refl _ sw] True have "I (propagate (fst (sweep s)))" by simp
      then show ?thesis using False True by (subst propagate.simps) (simp add: Let_def)
    next
      case nch: False
      then show ?thesis using False sw by (subst propagate.simps) (simp add: Let_def)
    qed
  qed
qed

lemma unfilled_zero:
  "p \<in> set (getUnfilledPositions g) \<Longrightarrow> cell g (pos_x p) (pos_y p) = Some 0"
  by (auto simp: getUnfilledPositions_def split: if_splits)

lemma frontierOf_update:
  assumes "frontierOf g1 ups" and "n < length ups"
  shows "frontierOf g1 (ups[n := (ups ! n)\<lparr>valuesTested := t\<rparr>])"
  using assms by (auto simp: frontierOf_def list_all_length nth_list_update)

lemma positionsInside_step:
  assumes "positionsInside (view s) ups" and "n < length ups"
  shows "positionsInside (view (setCell s r c v)) (ups[n := (ups ! n)\<lparr>valuesTested := t\<rparr>])"
  using assms by (auto simp: positionsInside_def list_all_length nth_list_update cell_setCell)

lemma positionsInside_setCell:
  "positionsInside (view s) ups \<Longrightarrow> positionsInside (view (setCell s r c v)) ups"
  by (auto simp: positionsInside_def list_all_length cell_setCell)

lemma positionsInside_unfilled: "positionsInside g (getUnfilledPositions g)"
  by (auto simp: positionsInside_def list_all_iff dest: unfilled_zero)

lemma frontierOf_unfilled: "frontierOf g (getUnfilledPositions g)"
  by (auto simp: frontierOf_def list_all_iff dest: unfilled_zero)

lemma trialStep_stop:
  "trialStep s ups k = Break s' \<Longrightarrow> s' = s" "trialStep s ups k = Throw s' \<Longrightarrow> s' = s"
  by (auto simp: trialStep_def Let_def split: if_splits option.splits)

lemma solveByTrialAndError_rule:
  assumes i: "I s1"
    and w: "\<And>h x y v. I h \<Longrightarrow> cell (view h) x y = Some 0 \<Longrightarrow> v \<in> set candidates \<Longrightarrow>
           isValueValidInPosition (view h) x y v False \<Longrightarrow> I (setCell h x y v)"
    and z: "\<And>h x y. I h \<Longrightarrow> cell (view s1) x y = Some 0 \<Longrightarrow> cell (view h) x y \<noteq> None \<Longrightarrow>
           I (setCell h x y 0)"
  shows "\<exists>r. solveByTrialAndError s1 = Some r \<and> I (gridOf r)"
  unfolding solveByTrialAndError_def
proof (rule trialLoop_rule
    [where Inv = "\<lambda>h ups k. I h \<and> positionsInside (view h) ups \<and> frontierOf (view s1) ups"
       and Q = "\<lambda>r. I (gridOf r)"])
  show "I s1 \<and> positionsInside (view s1) (getUnfilledPositions (view s1)) \<and>
        frontierOf (view s1) (getUnfilledPositions (view s1))"
    using i by (simp add: positionsInside_unfilled frontierOf_unfilled)
next
  fix h ups k h' ups' k'
  assume inv: "I h \<and> positionsInside (view h) ups \<and> frontierOf (view s1) ups"
    and st: "trialStep h ups k = Continue h' ups' k'"
  let ?p = "ups ! nat k"
  from trialStep_Continue [OF st] inv have k: "nat k < length ups"
    and c: "(\<exists>i. i \<in> set candidates \<and>
               isValueValidInPosition (view (setCell h (pos_x ?p) (pos_y ?p) 0))
                 (pos_x ?p) (pos_y ?p) i False \<and>
               h' = setCell (setCell h (pos_x ?p) (pos_y ?p) 0) (pos_x ?p) (pos_y ?p) i \<and>
               ups' = ups[nat k := ?p\<lparr>valuesTested := valuesTested ?p @ [i]\<rparr>]) \<or>
          (h' = setCell h (pos_x ?p) (pos_y ?p) 0 \<and>
           ups' = ups[nat k := ?p\<lparr>valuesTested := []\<rparr>])"
    by auto
  from inv k have ins: "cell (view h) (pos_x ?p) (pos_y ?p) \<noteq> None"
    by (simp add: positionsInside_nth)
  from inv k have fr: "cell (view s1) (pos_x ?p) (pos_y ?p) = Some 0"
    by (simp add: frontierOf_def list_all_length)
  have i0: "I (setCell h (pos_x ?p) (pos_y ?p) 0)"
    using inv fr ins by (intro z) simp_all
  have z0: "cell (view (setCell h (pos_x ?p) (pos_y ?p) 0)) (pos_x ?p) (pos_y ?p) = Some 0"
    using ins by (rule cell_setCell_same)
  from c show "I h' \<and> positionsInside (view h') ups' \<and> frontierOf (view s1) ups'"
  proof
    assume "\<exists>i. i \<in> set candidates \<and>
               isValueValidInPosition (view (setCell h (pos_x ?p) (pos_y ?p) 0))
                 (pos_x ?p) (pos_y ?p) i False \<and>
               h' = setCell (setCell h (pos_x ?p) (pos_y ?p) 0) (pos_x ?p) (pos_y ?p) i \<and>
               ups' = ups[nat k := ?p\<lparr>valuesTested := valuesTested ?p @ [i]\<rparr>]"
    then obtain i where ic: "i \<in> set candidates"
      and v: "isValueValidInPosition (view (setCell h (pos_x ?p) (pos_y ?p) 0))
                 (pos_x ?p) (pos_y ?p) i False"
      and h': "h' = setCell (setCell h (pos_x ?p) (pos_y ?p) 0) (pos_x ?p) (pos_y ?p) i"
      and u: "ups' = ups[nat k := ?p\<lparr>valuesTested := valuesTested ?p @ [i]\<rparr>]"
      by blast
    have "I h'" unfolding h' using i0 z0 ic v by (rule w)
    moreover have "positionsInside (view h') ups'"
      unfolding h' u using inv k by (intro positionsInside_step positionsInside_setCell) simp_all
    moreover have "frontierOf (view s1) ups'"
      unfolding u using inv k by (intro frontierOf_update) simp_all
    ultimately show ?thesis by blast
  next
    assume b: "h' = setCell h (pos_x ?p) (pos_y ?p) 0 \<and>
               ups' = ups[nat k := ?p\<lparr>valuesTested := []\<rparr>]"
    have "I h'" using b i0 by simp
    moreover have "positionsInside (view h') ups'"
      using b inv k by (auto intro: positionsInside_step)
    moreover have "frontierOf (view s1) ups'"
      using b inv k by (auto intro: frontierOf_update)
    ultimately show ?thesis by blast
  qed
next
  fix h ups k
  assume "I h \<and> positionsInside (view h) ups \<and> frontierOf (view s1) ups"
  then show "positionsInside (view h) ups" by simp
next
  fix h ups k h'
  assume "I h \<and> positionsInside (view h) ups \<and> frontierOf (view s1) ups"
    "trialStep h ups k = Break h'"
  then show "I (gridOf (Done h'))" using trialStep_stop(1) by auto
next
  fix h ups k h'
  assume "I h \<and> positionsInside (view h) ups \<and> frontierOf (view s1) ups"
    "trialStep h ups k = Throw h'"
  then show "I (gridOf (Fault h'))" using trialStep_stop(2) by auto
qed

lemma solve_rule:
  assumes i: "I s"
    and w: "\<And>h x y v. I h \<Longrightarrow> cell (view h) x y = Some 0 \<Longrightarrow> v \<in> set candidates \<Longrightarrow>
           isValueValidInPosition (view h) x y v False \<Longrightarrow> I (setCell h x y v)"
    and z: "\<And>h x y. I h \<Longrightarrow> cell (view (propagate s)) x y = Some 0 \<Longrightarrow>
           cell (view h) x y \<noteq> None \<Longrightarrow> I (setCell h x y 0)"
  shows "\<exists>r. solve s = Some r \<and> I (gridOf r)"
proof -
  have p: "I (propagate s)" using i w by (rule propagate_rule)
  show ?thesis
  proof (cases "isSolved (view (propagate s))")
    case True
    then show ?thesis using p by (simp add: solve_def)
  next
    case False
    from solveByTrialAndError_rule [where I = I, OF p w z] False show ?thesis
      by (simp add: solve_def)
  qed
qed

lemma solve_returns: "\<exists>r. solve s = Some r"
  using solve_rule [where I = "\<lambda>_. True" and s = s] by simp

section \<open>\<open>solve\<close> returns, or throws\<close>

text \<open>
  Claim C7. For an object that passed validation and whose matrix holds exactly two
  filled cells, \<open>solve\<close> ends: the sweeps and the loop of trial and error both finish,
  and \<open>solve\<close> either returns or is left by the uncaught error, whether or not the
  matrix is complete then.
\<close>

theorem two_givens_solve_ends:
  "construct g = Inr s \<Longrightarrow> filledCells (view g) = 2 \<Longrightarrow> \<exists>r. solve s = Some r"
  by (rule solve_returns)

theorem two_givens_solve_ends_witness:
  "construct (fresh cornerGrid) = Inr (fresh cornerGrid) \<and>
   filledCells (view (fresh cornerGrid)) = 2 \<and>
   (\<exists>r. solve (fresh cornerGrid) = Some r)"
proof -
  have a: "construct (fresh cornerGrid) = Inr (fresh cornerGrid)" by code_simp
  have b: "filledCells (view (fresh cornerGrid)) = 2" by code_simp
  from a b two_givens_solve_ends [OF a b] show ?thesis by blast
qed

text \<open>
  A run of the loop with a bound on the number of iterations, for evaluating \<open>solve\<close>
  on a given object: when the run ends within the bound, the loop ends with its result.
\<close>

lemma trialRun_trialLoop: "trialRun n s ups k = Some r \<Longrightarrow> trialLoop s ups k = Some r"
proof (induction n arbitrary: s ups k)
  case 0
  then show ?case by simp
next
  case (Suc n)
  show ?case
  proof (cases "trialStep s ups k")
    case (Continue s' ups' k')
    with Suc.prems have "trialRun n s' ups' k' = Some r" by simp
    from Suc.IH [OF this] show ?thesis by (subst trialLoop.simps) (simp add: Continue)
  next
    case (Break s')
    with Suc.prems show ?thesis by (subst trialLoop.simps) simp
  next
    case (Throw s')
    with Suc.prems show ?thesis by (subst trialLoop.simps) simp
  qed
qed

lemma solve_by_run:
  assumes "propagate s = s1" and "\<not> isSolved (view s1)"
    and "trialRun n s1 (getUnfilledPositions (view s1)) 0 = Some r"
  shows "solve s = Some r"
  using assms trialRun_trialLoop [OF assms(3)]
  by (simp add: solve_def solveByTrialAndError_def)

lemma deadEnd_propagate: "propagate (fresh deadEnd) = fresh deadEnd"
  by code_simp

lemma deadEnd_unsolved: "\<not> isSolved (view (fresh deadEnd))"
  by code_simp

lemma deadEnd_run:
  "trialRun 2 (fresh deadEnd) (getUnfilledPositions (view (fresh deadEnd))) 0 =
     Some (Fault (fresh deadEnd))"
  by code_simp

text \<open>
  Claim C2 fails on the code. The matrix \<open>deadEnd\<close> passes validation; the sweeps
  change nothing; trial and error finds no value for its first entry, moves the cursor
  to \<open>-1\<close>, and the next iteration reads \<open>unfilledPositions[-1].x\<close>: \<open>solve\<close> is left
  by a \<open>TypeError\<close> instead of returning.
\<close>

theorem solve_deadEnd_throws:
  "construct (fresh deadEnd) = Inr (fresh deadEnd) \<and>
   solve (fresh deadEnd) = Some (Fault (fresh deadEnd))"
proof -
  have "construct (fresh deadEnd) = Inr (fresh deadEnd)" by code_simp
  moreover have "solve (fresh deadEnd) = Some (Fault (fresh deadEnd))"
    using deadEnd_propagate deadEnd_unsolved deadEnd_run by (rule solve_by_run)
  ultimately show ?thesis by blast
qed

section \<open>The givens are never written\<close>

lemma alias_same_cell:
  assumes "rowRefs s ! x = rowRefs s ! a" and "cell (view s) x y \<noteq> None"
    and "cell (view s) a y \<noteq> None"
  shows "cell (view s) x y = cell (view s) a y"
  using assms by (auto simp: cell_def view_def split: if_splits)

lemma write_at_zero_keeps:
  assumes z: "cell (view s) a b = Some 0" and c: "cell (view s) x y = Some v" and v: "v \<noteq> 0"
  shows "cell (view (setCell s a b w)) x y = Some v"
proof (cases "rowRefs s ! x = rowRefs s ! a \<and> y = b")
  case True
  with alias_same_cell [of s x a y] z c have "Some v = Some 0" by simp
  with v show ?thesis by simp
next
  case False
  then show ?thesis using c by (auto simp: cell_setCell)
qed

lemma write_at_frontier_keeps:
  assumes r: "rowRefs h = rowRefs s1" and z: "cell (view s1) a b = Some 0"
    and g: "cell (view s1) x y = Some v" and v: "v \<noteq> 0" and c: "cell (view h) x y = Some v"
  shows "cell (view (setCell h a b w)) x y = Some v"
proof (cases "rowRefs h ! x = rowRefs h ! a \<and> y = b")
  case True
  with alias_same_cell [of s1 x a y] r z g have "Some v = Some 0" by simp
  with v show ?thesis by simp
next
  case False
  then show ?thesis using c by (auto simp: cell_setCell)
qed

lemma sweepCell_keeps:
  assumes "cell (view (fst st)) x y = Some v" and "v \<noteq> 0"
  shows "cell (view (fst (sweepCell x' y' st))) x y = Some v"
proof (rule sweepCell_rule [where I = "\<lambda>h. cell (view h) x y = Some v"])
  show "cell (view (fst st)) x y = Some v" by fact
next
  fix h a b w
  assume "cell (view h) x y = Some v" "cell (view h) a b = Some 0"
  then show "cell (view (setCell h a b w)) x y = Some v"
    using assms(2) by (intro write_at_zero_keeps)
qed

lemma propagate_keeps:
  assumes "cell (view s) x y = Some v" and "v \<noteq> 0"
  shows "cell (view (propagate s)) x y = Some v"
proof (rule propagate_rule [where I = "\<lambda>h. cell (view h) x y = Some v"])
  show "cell (view s) x y = Some v" by fact
next
  fix h a b w
  assume "cell (view h) x y = Some v" "cell (view h) a b = Some 0"
  then show "cell (view (setCell h a b w)) x y = Some v"
    using assms(2) by (intro write_at_zero_keeps)
qed

lemma propagate_rowRefs: "rowRefs (propagate s) = rowRefs s"
  by (rule propagate_rule [where I = "\<lambda>h. rowRefs h = rowRefs s"]) simp_all

lemma trialStep_coordinates:
  "trialStep h ups k = Continue h' ups' k' \<Longrightarrow> coordinates ups' = coordinates ups"
  by (auto simp: trialStep_def Let_def coordinates_def map_update list_update_same_conv
      split: if_splits option.splits)

lemma trialStep_rowRefs: "rowRefs (stepGrid (trialStep h ups k)) = rowRefs h"
  by (simp add: trialStep_def Let_def split: option.splits)

lemma trialStep_keeps:
  assumes r: "rowRefs h = rowRefs s1" and f: "frontierOf (view s1) ups"
    and g: "cell (view s1) x y = Some v" and v: "v \<noteq> 0" and c: "cell (view h) x y = Some v"
  shows "cell (view (stepGrid (trialStep h ups k))) x y = Some v"
proof (cases "int (length ups) - 1 < k \<or> k < 0")
  case True
  then show ?thesis using c by (auto simp: trialStep_def)
next
  case False
  then have k: "nat k < length ups" by auto
  let ?p = "ups ! nat k"
  from f k have z: "cell (view s1) (pos_x ?p) (pos_y ?p) = Some 0"
    by (simp add: frontierOf_def list_all_length)
  have w: "cell (view (setCell h' (pos_x ?p) (pos_y ?p) w)) x y = Some v"
    if "rowRefs h' = rowRefs s1" "cell (view h') x y = Some v" for h' w
    using that(1) z g v that(2) by (rule write_at_frontier_keeps)
  have w0: "cell (view (setCell h (pos_x ?p) (pos_y ?p) 0)) x y = Some v"
    using r c by (rule w)
  have w1: "cell (view (setCell (setCell h (pos_x ?p) (pos_y ?p) 0) (pos_x ?p) (pos_y ?p) i)) x y
            = Some v" for i
    using r w0 by (intro w [of "setCell h (pos_x ?p) (pos_y ?p) 0"]) simp_all
  show ?thesis using False w0 w1
    by (simp add: trialStep_def Let_def split: option.splits)
qed

lemma trialStep_keeps_distinct:
  assumes d: "distinct (rowRefs h)" and ins: "positionsInside (view h) ups"
    and away: "(x, y) \<notin> set (coordinates ups)" and c: "cell (view h) x y = Some v"
  shows "cell (view (stepGrid (trialStep h ups k))) x y = Some v"
proof (cases "int (length ups) - 1 < k \<or> k < 0")
  case True
  then show ?thesis using c by (auto simp: trialStep_def)
next
  case False
  then have k: "nat k < length ups" by auto
  let ?p = "ups ! nat k"
  have "(pos_x ?p, pos_y ?p) \<in> set (coordinates ups)"
    using k by (auto simp: coordinates_def)
  with away have ne: "(pos_x ?p, pos_y ?p) \<noteq> (x, y)" by auto
  from ins k have "cell (view h) (pos_x ?p) (pos_y ?p) \<noteq> None"
    by (simp add: positionsInside_nth)
  then have px: "pos_x ?p < length (rowRefs h)" by (auto simp: cell_def split: if_splits)
  from c have x: "x < length (rowRefs h)" by (auto simp: cell_def split: if_splits)
  have w: "cell (view (setCell h' (pos_x ?p) (pos_y ?p) w)) x y = cell (view h') x y"
    if "rowRefs h' = rowRefs h" for h' w
    using ne d px x that by (auto simp: cell_setCell nth_eq_iff_index_eq)
  show ?thesis using False c
    by (simp add: trialStep_def Let_def w split: option.splits)
qed

lemma unfilled_coordinates:
  assumes "cell g x y = Some v" and "v \<noteq> 0"
  shows "(x, y) \<notin> set (coordinates (getUnfilledPositions g))"
proof
  assume "(x, y) \<in> set (coordinates (getUnfilledPositions g))"
  then obtain p where "p \<in> set (getUnfilledPositions g)" "pos_x p = x" "pos_y p = y"
    by (auto simp: coordinates_def)
  with unfilled_zero [of p g] assms show False by auto
qed

lemma solve_keeps:
  assumes "cell (view s) x y = Some v" and "v \<noteq> 0"
  shows "\<exists>r. solve s = Some r \<and> cell (view (gridOf r)) x y = Some v"
proof -
  have "\<exists>r. solve s = Some r \<and>
            (rowRefs (gridOf r) = rowRefs s \<and> cell (view (gridOf r)) x y = Some v)"
  proof (rule solve_rule [where I = "\<lambda>h. rowRefs h = rowRefs s \<and> cell (view h) x y = Some v"])
    show "rowRefs s = rowRefs s \<and> cell (view s) x y = Some v" using assms(1) by simp
  next
    fix h a b w
    assume "rowRefs h = rowRefs s \<and> cell (view h) x y = Some v" "cell (view h) a b = Some 0"
    then show "rowRefs (setCell h a b w) = rowRefs s \<and>
               cell (view (setCell h a b w)) x y = Some v"
      using assms(2) by (simp add: write_at_zero_keeps)
  next
    fix h a b
    assume h: "rowRefs h = rowRefs s \<and> cell (view h) x y = Some v"
      and z: "cell (view (propagate s)) a b = Some 0"
    have "cell (view (setCell h a b 0)) x y = Some v"
      using propagate_rowRefs [of s] h z propagate_keeps [OF assms] assms(2)
      by (intro write_at_frontier_keeps [where ?s1.0 = "propagate s"]) simp_all
    with h show "rowRefs (setCell h a b 0) = rowRefs s \<and>
                 cell (view (setCell h a b 0)) x y = Some v" by simp
  qed
  then show ?thesis by blast
qed

text \<open>
  Claim C10. Let a cell of a validated matrix hold a value other than 0 when \<open>solve\<close>
  is called. Every step of a sweep leaves the cell as it is (a sweep writes only where
  it reads 0, and a row array that holds the cell holds no 0 in that column), so the
  cell is unchanged when the sweeps are over; the cell is not an entry of the list
  trial and error builds; the coordinates of the list never change, and every
  iteration of trial and error, which writes only into the row array of the entry
  under the cursor, leaves the cell as it is, for every list of cells that were empty
  after the sweeps and also, when the rows are arrays of their own, for every list that
  does not hold the cell; and \<open>solve\<close> ends with the cell unchanged, whether it returns
  or throws.
\<close>

theorem solve_keeps_givens:
  assumes "construct g = Inr s" and "cell (view s) x y = Some v" and "v \<noteq> 0"
  shows "(\<forall>st x' y'. cell (view (fst st)) x y = Some v \<longrightarrow>
            cell (view (fst (sweepCell x' y' st))) x y = Some v) \<and>
         cell (view (propagate s)) x y = Some v \<and>
         (x, y) \<notin> set (coordinates (getUnfilledPositions (view (propagate s)))) \<and>
         (\<forall>h ups k h' ups' k'. trialStep h ups k = Continue h' ups' k' \<longrightarrow>
            coordinates ups' = coordinates ups) \<and>
         (\<forall>h ups k. rowRefs h = rowRefs (propagate s) \<longrightarrow>
            frontierOf (view (propagate s)) ups \<longrightarrow> cell (view h) x y = Some v \<longrightarrow>
            cell (view (stepGrid (trialStep h ups k))) x y = Some v \<and>
            rowRefs (stepGrid (trialStep h ups k)) = rowRefs (propagate s)) \<and>
         (\<forall>h ups k. distinct (rowRefs h) \<longrightarrow> positionsInside (view h) ups \<longrightarrow>
            (x, y) \<notin> set (coordinates ups) \<longrightarrow> cell (view h) x y = Some v \<longrightarrow>
            cell (view (stepGrid (trialStep h ups k))) x y = Some v) \<and>
         (\<exists>r. solve s = Some r \<and> cell (view (gridOf r)) x y = Some v)"
proof -
  have a: "\<forall>st x' y'. cell (view (fst st)) x y = Some v \<longrightarrow>
            cell (view (fst (sweepCell x' y' st))) x y = Some v"
    using sweepCell_keeps [OF _ assms(3)] by blast
  have b: "cell (view (propagate s)) x y = Some v"
    using assms(2,3) by (rule propagate_keeps)
  have c: "(x, y) \<notin> set (coordinates (getUnfilledPositions (view (propagate s))))"
    using b assms(3) by (rule unfilled_coordinates)
  have d: "\<forall>h ups k h' ups' k'. trialStep h ups k = Continue h' ups' k' \<longrightarrow>
            coordinates ups' = coordinates ups"
    using trialStep_coordinates by blast
  have e: "\<forall>h ups k. rowRefs h = rowRefs (propagate s) \<longrightarrow>
            frontierOf (view (propagate s)) ups \<longrightarrow> cell (view h) x y = Some v \<longrightarrow>
            cell (view (stepGrid (trialStep h ups k))) x y = Some v \<and>
            rowRefs (stepGrid (trialStep h ups k)) = rowRefs (propagate s)"
    using trialStep_keeps [OF _ _ b assms(3)] trialStep_rowRefs by simp
  have f: "\<forall>h ups k. distinct (rowRefs h) \<longrightarrow> positionsInside (view h) ups \<longrightarrow>
            (x, y) \<notin> set (coordinates ups) \<longrightarrow> cell (view h) x y = Some v \<longrightarrow>
            cell (view (stepGrid (trialStep h ups k))) x y = Some v"
    using trialStep_keeps_distinct by blast
  have g: "\<exists>r. solve s = Some r \<and> cell (view (gridOf r)) x y = Some v"
    using assms(2,3) by (rule solve_keeps)
  from a b c d e f g show ?thesis by (intro conjI)
qed

theorem solve_keeps_givens_witness:
  "construct (fresh twoOpen) = Inr (fresh twoOpen) \<and> cell (view (fresh twoOpen)) 0 2 = Some 3 \<and>
   (3::real) \<noteq> 0 \<and> cell (view (propagate (fresh twoOpen))) 0 2 = Some 3 \<and>
   (\<exists>r. solve (fresh twoOpen) = Some r \<and> cell (view (gridOf r)) 0 2 = Some 3)"
proof -
  have a: "construct (fresh twoOpen) = Inr (fresh twoOpen)" by code_simp
  have b: "cell (view (fresh twoOpen)) 0 2 = Some 3" by code_simp
  have c: "(3::real) \<noteq> 0" by simp
  from solve_keeps_givens [OF a b c] a b c show ?thesis by blast
qed

section \<open>A complete matrix after \<open>solve\<close>\<close>

lemma countAt_two:
  assumes "distinct ps" and "p \<in> set ps" and "q \<in> set ps" and "p \<noteq> q"
    and "cell g (fst p) (snd p) = Some v" and "cell g (fst q) (snd q) = Some v"
  shows "2 \<le> countAt g ps v"
proof -
  let ?f = "filter (\<lambda>p. cell g (fst p) (snd p) = Some v) ps"
  have "{p, q} \<subseteq> set ?f" using assms by auto
  then have "card {p, q} \<le> card (set ?f)" by (intro card_mono) auto
  moreover have "card (set ?f) = length ?f" by (rule distinct_card) (simp add: assms(1))
  moreover have "card {p, q} = 2" using assms(4) by simp
  ultimately show ?thesis by (simp add: countAt_def)
qed

lemma countRow_countAt:
  "r < length g \<Longrightarrow> countValueInRow g r v = countAt g (map (Pair r) [0..<length (g ! r)]) v"
proof -
  assume r: "r < length g"
  have "length (filter (\<lambda>w. w = v) (map (nth (g ! r)) [0..<length (g ! r)])) =
        length (filter (\<lambda>y. g ! r ! y = v) [0..<length (g ! r)])"
    by (simp add: filter_map comp_def)
  moreover have "filter (\<lambda>y. g ! r ! y = v) [0..<length (g ! r)] =
                 filter (\<lambda>y. cell g r y = Some v) [0..<length (g ! r)]"
    using r by (intro filter_cong) (auto simp: cell_def)
  ultimately show ?thesis
    by (simp add: countValueInRow_def countAt_def filter_map comp_def map_nth)
qed

lemma countColumn_countAt:
  "countValueInColumn g c v = countAt g (map (\<lambda>x. (x, c)) [0..<length g]) v"
  by (simp add: countValueInColumn_def countAt_def filter_map comp_def)

lemma countGroup_countAt: "countValueInGroup g r c v = countAt g (groupCells r c) v"
  by (simp add: countValueInGroup_def countAt_def)

lemma in_groupCells:
  "(x, y) \<in> set (groupCells r c) \<longleftrightarrow> x div 3 = r div 3 \<and> y div 3 = c div 3"
  by (auto simp: set_groupCells spec_block_def)


lemma validate_cells:
  assumes "validate g = None"
  shows "isNineByNine g" and "\<forall>x<9. \<forall>y<9. \<not> cellInvalid g x y"
  using assms by (simp_all add: validate_None)

lemma nine_cell:
  "isNineByNine g \<Longrightarrow> cell g x y = (if x < 9 \<and> y < 9 then Some (g ! x ! y) else None)"
  by (auto simp: isNineByNine_def cell_def list_all_length)

lemma validate_inRange:
  assumes "validate g = None"
  shows "allCells inRange g"
proof -
  note v = validate_cells [OF assms]
  have "inRange (g ! x ! y)" if "x < 9" "y < 9" for x y
    using v(2) that by (fastforce simp: cellInvalid_def inRange_def Let_def)
  with v(1) show ?thesis
    by (simp add: allCells_def isNineByNine_def list_all_length)
qed

lemma validate_clashFree:
  assumes "validate g = None"
  shows "clashFree g"
  unfolding clashFree_def
proof (intro allI impI)
  fix p q v
  assume a: "cell g (fst p) (snd p) = Some v \<and> cell g (fst q) (snd q) = Some v \<and> v \<noteq> 0 \<and>
             peers p q"
  note n = validate_cells [OF assms]
  from a n(1) have p: "fst p < 9" "snd p < 9" "g ! fst p ! snd p = v"
    and q: "fst q < 9" "snd q < 9" "g ! fst q ! snd q = v"
    by (auto simp: nine_cell split: if_splits)
  from n(1) have len: "length g = 9" "length (g ! fst p) = 9"
    using p by (auto simp: isNineByNine_def list_all_length)
  from n(2) p a have ok: "countValueInRow g (fst p) v \<le> 1"
    "countValueInColumn g (snd p) v \<le> 1" "countValueInGroup g (fst p) (snd p) v \<le> 1"
    by (fastforce simp: cellInvalid_def Let_def)+
  show "p = q"
  proof (rule ccontr)
    assume ne: "p \<noteq> q"
    from a have "peers p q" by simp
    then consider "fst p = fst q" | "snd p = snd q"
      | "fst p div 3 = fst q div 3 \<and> snd p div 3 = snd q div 3"
      by (auto simp: peers_def)
    then show False
    proof cases
      case 1
      have "2 \<le> countAt g (map (Pair (fst p)) [0..<9]) v"
        using a ne 1 p q
        by (intro countAt_two [of _ p q]) (auto simp: distinct_map inj_on_def image_iff prod_eq_iff)
      with ok(1) len p show False by (simp add: countRow_countAt)
    next
      case 2
      have "2 \<le> countAt g (map (\<lambda>x. (x, snd p)) [0..<9]) v"
        using a ne 2 p q
        by (intro countAt_two [of _ p q]) (auto simp: distinct_map inj_on_def image_iff prod_eq_iff)
      with ok(2) len show False by (simp add: countColumn_countAt)
    next
      case 3
      have "2 \<le> countAt g (groupCells (fst p) (snd p)) v"
        using a ne 3
        by (intro countAt_two [of _ p q] distinct_groupCells)
           (auto simp: in_groupCells [of "fst p" "snd p", symmetric]
                       in_groupCells [of "fst q" "snd q", symmetric] prod_eq_iff
                 simp del: prod.collapse, (metis in_groupCells prod.collapse)+)
      with ok(3) show False by (simp add: countGroup_countAt)
    qed
  qed
qed

lemma allCells_setCell:
  assumes "allCells P (view s)" and "P v"
  shows "allCells P (view (setCell s r c v))"
proof -
  have "list_all P (view (setCell s r c v) ! x)" if x: "x < length (rowRefs s)" for x
  proof -
    from assms(1) x have a: "list_all P (view s ! x)"
      by (simp add: allCells_def list_all_length)
    then have "list_all P ((view s ! x)[c := v])"
      using assms(2) by (cases "c < length (view s ! x)") (auto simp: list_all_length nth_list_update)
    with a show ?thesis using x by (simp add: view_setCell_nth)
  qed
  then show ?thesis by (simp add: allCells_def list_all_length)
qed

lemma cell_setCell_distinct:
  assumes "distinct (rowRefs s)" and "r < length (rowRefs s)"
  shows "cell (view (setCell s r c v)) x y =
           (if x = r \<and> y = c \<and> cell (view s) x y \<noteq> None then Some v else cell (view s) x y)"
proof (cases "x < length (rowRefs s)")
  case True
  with assms show ?thesis by (simp add: cell_setCell nth_eq_iff_index_eq)
next
  case False
  then have "cell (view s) x y = None" by (simp add: cell_def)
  then show ?thesis by (simp add: cell_setCell)
qed

lemma absent_row: "\<not> isValuePresentInRow g r v \<Longrightarrow> cell g r y \<noteq> Some v"
proof
  assume a: "\<not> isValuePresentInRow g r v" and b: "cell g r y = Some v"
  from b have "y < length (g ! r)" "g ! r ! y = v" by (auto simp: cell_def split: if_splits)
  then have "v \<in> set (g ! r)" by (auto simp: in_set_conv_nth)
  with a show False
    by (simp add: isValuePresentInRow_def countValueInRow_def filter_empty_conv)
qed

lemma absent_column: "\<not> isValuePresentInColumn g c v \<Longrightarrow> cell g x c \<noteq> Some v"
proof
  assume a: "\<not> isValuePresentInColumn g c v" and b: "cell g x c = Some v"
  from b have "x < length g" by (auto simp: cell_def split: if_splits)
  then have "x \<in> set [0..<length g]" by simp
  with a b show False
    unfolding isValuePresentInColumn_def countValueInColumn_def
    by (simp only: length_greater_0_conv filter_empty_conv) blast
qed

lemma absent_group:
  "\<not> isValuePresentInGroup g r c v \<Longrightarrow> x div 3 = r div 3 \<Longrightarrow> y div 3 = c div 3 \<Longrightarrow>
   cell g x y \<noteq> Some v"
proof -
  assume a: "\<not> isValuePresentInGroup g r c v" and "x div 3 = r div 3" "y div 3 = c div 3"
  then have "(x, y) \<in> set (groupCells r c)" by (simp add: in_groupCells)
  with a have "\<not> cell g (fst (x, y)) (snd (x, y)) = Some v"
    unfolding isValuePresentInGroup_def countValueInGroup_def
    by (simp only: length_greater_0_conv filter_empty_conv) blast
  then show ?thesis by simp
qed

lemma valid_no_peer:
  assumes "isValueValidInPosition g r c v False" and "peers (r, c) q"
  shows "cell g (fst q) (snd q) \<noteq> Some v"
proof -
  from assms(1) have a: "\<not> isValuePresentInRow g r v" "\<not> isValuePresentInColumn g c v"
    "\<not> isValuePresentInGroup g r c v"
    by (simp_all add: isValueValidInPosition_def)
  from assms(2) have "r = fst q \<or> c = snd q \<or> (r div 3 = fst q div 3 \<and> c div 3 = snd q div 3)"
    unfolding peers_def fst_conv snd_conv .
  then consider "r = fst q" | "c = snd q" | "r div 3 = fst q div 3" "c div 3 = snd q div 3"
    by blast
  then show ?thesis
  proof cases
    case 1
    from absent_row [OF a(1), of "snd q"] show ?thesis unfolding 1 .
  next
    case 2
    from absent_column [OF a(2), of "fst q"] show ?thesis unfolding 2 .
  next
    case 3
    from absent_group [OF a(3) 3(1) [symmetric] 3(2) [symmetric]] show ?thesis .
  qed
qed

lemma peers_sym: "peers p q \<Longrightarrow> peers q p"
  unfolding peers_def by metis

lemma clashFreeD:
  assumes "clashFree g" and "cell g (fst p) (snd p) = Some v"
    and "cell g (fst q) (snd q) = Some v" and "v \<noteq> 0" and "peers p q"
  shows "p = q"
  using assms(1) [unfolded clashFree_def, rule_format, of p v q] assms(2-5) by simp

lemma clashFree_write:
  assumes cf: "clashFree (view s)" and v: "isValueValidInPosition (view s) r c v False"
    and d: "distinct (rowRefs s)" and r: "r < length (rowRefs s)"
  shows "clashFree (view (setCell s r c v))"
  unfolding clashFree_def
proof (intro allI impI)
  fix p q w
  assume a: "cell (view (setCell s r c v)) (fst p) (snd p) = Some w \<and>
             cell (view (setCell s r c v)) (fst q) (snd q) = Some w \<and> w \<noteq> 0 \<and> peers p q"
  note cs = cell_setCell_distinct [OF d r]
  show "p = q"
  proof (cases "p = (r, c)")
    case pe: True
    show ?thesis
    proof (cases "q = (r, c)")
      case True
      with pe show ?thesis by simp
    next
      case False
      with a pe have "w = v" "cell (view s) (fst q) (snd q) = Some w"
        by (auto simp: cs prod_eq_iff split: if_splits)
      moreover from a pe have "peers (r, c) q" by simp
      from valid_no_peer [OF v this] have "cell (view s) (fst q) (snd q) \<noteq> Some v" .
      ultimately show ?thesis by simp
    qed
  next
    case pn: False
    show ?thesis
    proof (cases "q = (r, c)")
      case True
      with a pn have "w = v" "cell (view s) (fst p) (snd p) = Some w"
        by (auto simp: cs prod_eq_iff split: if_splits)
      moreover from a True have "peers (r, c) p" by (auto intro: peers_sym)
      from valid_no_peer [OF v this] have "cell (view s) (fst p) (snd p) \<noteq> Some v" .
      ultimately show ?thesis by simp
    next
      case False
      with a pn have "cell (view s) (fst p) (snd p) = Some w"
        "cell (view s) (fst q) (snd q) = Some w"
        by (auto simp: cs prod_eq_iff split: if_splits)
      with a cf show ?thesis by (auto intro: clashFreeD)
    qed
  qed
qed

lemma clashFree_zero:
  assumes cf: "clashFree (view s)"
  shows "clashFree (view (setCell s r c 0))"
  unfolding clashFree_def
proof (intro allI impI)
  fix p q w
  assume a: "cell (view (setCell s r c 0)) (fst p) (snd p) = Some w \<and>
             cell (view (setCell s r c 0)) (fst q) (snd q) = Some w \<and> w \<noteq> 0 \<and> peers p q"
  then have "cell (view s) (fst p) (snd p) = Some w" "cell (view s) (fst q) (snd q) = Some w"
    by (auto simp: cell_setCell split: if_splits)
  with a cf show "p = q" by (auto intro: clashFreeD)
qed

lemma candidates_fit: "v \<in> set candidates \<Longrightarrow> inRange v \<and> isInteger v"
  by (auto simp: candidates_def inRange_def isInteger_def)

lemma cell_inside_row: "cell (view s) x y = Some w \<Longrightarrow> x < length (rowRefs s)"
  by (auto simp: cell_def split: if_splits)

lemma solve_wellFormed:
  assumes "distinct (rowRefs s)" and "wellFormed (view s)"
  shows "\<exists>r. solve s = Some r \<and> wellFormed (view (gridOf r))"
proof -
  have "\<exists>r. solve s = Some r \<and> (distinct (rowRefs (gridOf r)) \<and> wellFormed (view (gridOf r)))"
  proof (rule solve_rule [where I = "\<lambda>h. distinct (rowRefs h) \<and> wellFormed (view h)"])
    show "distinct (rowRefs s) \<and> wellFormed (view s)" using assms by simp
  next
    fix h x y v
    assume "distinct (rowRefs h) \<and> wellFormed (view h)" "cell (view h) x y = Some 0"
      "v \<in> set candidates" "isValueValidInPosition (view h) x y v False"
    then show "distinct (rowRefs (setCell h x y v)) \<and> wellFormed (view (setCell h x y v))"
      by (simp add: wellFormed_def nine_setCell allCells_setCell candidates_fit clashFree_write
          cell_inside_row)
  next
    fix h x y
    assume "distinct (rowRefs h) \<and> wellFormed (view h)"
    then show "distinct (rowRefs (setCell h x y 0)) \<and> wellFormed (view (setCell h x y 0))"
      by (simp add: wellFormed_def nine_setCell allCells_setCell clashFree_zero
          inRange_def isInteger_def)
  qed
  then show ?thesis by blast
qed

lemma card_candidates: "card (set candidates) = 9"
  using distinct_card [OF candidates_sorted(2)] by (simp add: candidates_def)

lemma candidates_upto: "candidates = map real_of_int [1..9]"
  unfolding candidates_def by (subst upto.simps, simp)+

lemma integer_in_candidates:
  assumes "inRange v" and "isInteger v" and "v \<noteq> 0"
  shows "v \<in> set candidates"
proof -
  define n where "n = \<lfloor>v\<rfloor>"
  from assms(2) have v: "v = of_int n" unfolding isInteger_def n_def by (rule sym)
  from assms(1,3) have "0 \<le> n" "n \<le> 9" "n \<noteq> 0"
    unfolding v inRange_def by simp_all
  then have "n \<in> set [1..9]" by simp
  then have "of_int n \<in> set (map real_of_int [1..9])" by (simp del: set_upto)
  then show ?thesis unfolding v by (simp add: candidates_upto)
qed

lemma solved_cell:
  assumes "isSolved g" and "isNineByNine g" and "x < 9" and "y < 9"
  shows "g ! x ! y \<noteq> 0"
  using assms by (auto simp: isSolved_def isNineByNine_def list_all_length)

lemma wellFormed_cell:
  assumes w: "wellFormed g" and s: "isSolved g" and x: "x < 9" and y: "y < 9"
  shows "\<exists>v\<in>set candidates. cell g x y = Some v"
proof -
  from w have n: "isNineByNine g" and r: "allCells inRange g" and i: "allCells isInteger g"
    by (simp_all add: wellFormed_def)
  from n x y have l: "x < length g" "y < length (g ! x)"
    by (auto simp: isNineByNine_def list_all_length)
  with r i have "inRange (g ! x ! y)" "isInteger (g ! x ! y)"
    by (simp_all add: allCells_def list_all_length)
  moreover have "g ! x ! y \<noteq> 0" using s n x y by (rule solved_cell)
  ultimately have "g ! x ! y \<in> set candidates" by (rule integer_in_candidates)
  moreover have "cell g x y = Some (g ! x ! y)" using l by (simp add: cell_def)
  ultimately show ?thesis by blast
qed

lemma unit_complete:
  assumes d: "distinct ps" and l: "length ps = 9"
    and c: "\<forall>p\<in>set ps. \<exists>v\<in>set candidates. cell g (fst p) (snd p) = Some v"
    and pr: "\<forall>p\<in>set ps. \<forall>q\<in>set ps. peers p q"
    and cf: "clashFree g" and v: "v \<in> set candidates"
  shows "countAt g ps v = 1"
proof -
  define f where "f p = the (cell g (fst p) (snd p))" for p
  have fc: "cell g (fst p) (snd p) = Some (f p) \<and> f p \<in> set candidates" if "p \<in> set ps" for p
    using c that by (auto simp: f_def)
  have inj: "inj_on f (set ps)"
  proof (rule inj_onI)
    fix p q assume p: "p \<in> set ps" and q: "q \<in> set ps" and e: "f p = f q"
    from fc [OF p] have "f p \<noteq> 0" by (simp add: candidates_nonzero)
    moreover from pr p q have "peers p q" by blast
    ultimately show "p = q"
      using cf fc [OF p] fc [OF q] e by (intro clashFreeD [of g p "f p" q]) simp_all
  qed
  have "card (f ` set ps) = 9" using inj d l by (simp add: card_image distinct_card)
  moreover have sub: "f ` set ps \<subseteq> set candidates" using fc by auto
  ultimately have "f ` set ps = set candidates"
    using card_candidates by (intro card_subset_eq) simp_all
  with v obtain p where p: "p \<in> set ps" "f p = v" by (metis imageE)
  let ?h = "filter (\<lambda>p. cell g (fst p) (snd p) = Some v) ps"
  have "set ?h = {p}"
  proof (intro equalityI subsetI)
    fix q assume "q \<in> set ?h"
    then have q: "q \<in> set ps" "cell g (fst q) (snd q) = Some v" by auto
    with fc [OF q(1)] have "f q = v" by simp
    with p q(1) inj have "q = p" by (auto dest: inj_onD)
    then show "q \<in> {p}" by simp
  next
    fix q assume "q \<in> {p}"
    then show "q \<in> set ?h" using p fc [OF p(1)] by simp
  qed
  then have "card (set ?h) = 1" by simp
  moreover have "card (set ?h) = length ?h" by (rule distinct_card) (simp add: d)
  ultimately show ?thesis by (simp add: countAt_def)
qed

lemma length_groupCells: "length (groupCells r c) = 9"
proof -
  have "groupCells r c =
        List.product [(r div 3) * 3..<(r div 3) * 3 + 3] [(c div 3) * 3..<(c div 3) * 3 + 3]"
    by (simp add: groupCells_def Let_def product_concat_map)
  then show ?thesis by (simp only: length_product length_upt) simp
qed

lemma complete_units:
  assumes w: "wellFormed g" and s: "isSolved g" and x: "x < 9" and y: "y < 9"
    and v: "v \<in> set candidates"
  shows "countValueInRow g x v = 1" and "countValueInColumn g y v = 1"
    and "countValueInGroup g x y v = 1"
proof -
  from w have n: "isNineByNine g" and cf: "clashFree g" by (simp_all add: wellFormed_def)
  from n x have len: "length g = 9" "length (g ! x) = 9"
    by (auto simp: isNineByNine_def list_all_length)
  note cand = wellFormed_cell [OF w s]
  have "countAt g (map (Pair x) [0..<9]) v = 1"
    using cf v
  proof (rule unit_complete [rotated 4])
    show "distinct (map (Pair x) [0..<9])" by (simp add: distinct_map inj_on_def)
    show "length (map (Pair x) [0..<9]) = 9" by simp
    show "\<forall>p\<in>set (map (Pair x) [0..<9]). \<exists>v\<in>set candidates. cell g (fst p) (snd p) = Some v"
      using cand x by auto
    show "\<forall>p\<in>set (map (Pair x) [0..<9]). \<forall>q\<in>set (map (Pair x) [0..<9]). peers p q"
      by (auto simp: peers_def)
  qed
  then show "countValueInRow g x v = 1" using len x by (simp add: countRow_countAt)
  have "countAt g (map (\<lambda>a. (a, y)) [0..<9]) v = 1"
    using cf v
  proof (rule unit_complete [rotated 4])
    show "distinct (map (\<lambda>a. (a, y)) [0..<9])" by (simp add: distinct_map inj_on_def)
    show "length (map (\<lambda>a. (a, y)) [0..<9]) = 9" by simp
    show "\<forall>p\<in>set (map (\<lambda>a. (a, y)) [0..<9]). \<exists>v\<in>set candidates. cell g (fst p) (snd p) = Some v"
      using cand y by auto
    show "\<forall>p\<in>set (map (\<lambda>a. (a, y)) [0..<9]). \<forall>q\<in>set (map (\<lambda>a. (a, y)) [0..<9]). peers p q"
      by (auto simp: peers_def)
  qed
  then show "countValueInColumn g y v = 1" using len by (simp add: countColumn_countAt)
  have "countAt g (groupCells x y) v = 1"
    using cf v
  proof (rule unit_complete [rotated 4])
    show "distinct (groupCells x y)" by (rule distinct_groupCells)
    show "length (groupCells x y) = 9" by (rule length_groupCells)
    show "\<forall>p\<in>set (groupCells x y). \<exists>v\<in>set candidates. cell g (fst p) (snd p) = Some v"
    proof
      fix p assume "p \<in> set (groupCells x y)"
      then have "fst p div 3 = x div 3" "snd p div 3 = y div 3"
        using in_groupCells [of "fst p" "snd p" x y] by simp_all
      with x y have "fst p < 9" "snd p < 9" by arith+
      then show "\<exists>v\<in>set candidates. cell g (fst p) (snd p) = Some v" by (rule cand)
    qed
    show "\<forall>p\<in>set (groupCells x y). \<forall>q\<in>set (groupCells x y). peers p q"
    proof (intro ballI)
      fix p q assume "p \<in> set (groupCells x y)" "q \<in> set (groupCells x y)"
      then have "fst p div 3 = x div 3" "snd p div 3 = y div 3"
        "fst q div 3 = x div 3" "snd q div 3 = y div 3"
        using in_groupCells [of "fst p" "snd p" x y] in_groupCells [of "fst q" "snd q" x y]
        by simp_all
      then show "peers p q" unfolding peers_def by simp
    qed
  qed
  then show "countValueInGroup g x y v = 1" by (simp add: countGroup_countAt)
qed


lemma constructed_wellFormed:
  assumes "construct g = Inr s" and "allCells isInteger (view g)"
  shows "wellFormed (view s)"
proof -
  from assms(1) have s: "s = g" and v: "validate (view g) = None"
    by (simp_all add: construct_iff)
  show ?thesis
    unfolding s wellFormed_def
    using validate_cells(1) [OF v] validate_inRange [OF v] validate_clashFree [OF v] assms(2)
    by simp
qed

text \<open>
  Claim C1, as amended. Let an object pass validation, let its nine rows be nine
  different row arrays, and let all its cells be integers, as the matrices of the
  specification are. If the matrix is complete when \<open>solve\<close> has ended, then every
  value of 1 to 9 occurs exactly once in every row, in every column and in the 3 by 3
  group of every cell.
\<close>

theorem complete_after_solve:
  assumes "construct g = Inr s" and "distinct (rowRefs g)" and "allCells isInteger (view g)"
    and "solve s = Some r" and "isSolved (view (gridOf r))"
  shows "\<forall>x<9. \<forall>y<9. \<forall>v\<in>set candidates.
           countValueInRow (view (gridOf r)) x v = 1 \<and>
           countValueInColumn (view (gridOf r)) y v = 1 \<and>
           countValueInGroup (view (gridOf r)) x y v = 1"
proof -
  from assms(1) have s: "s = g" by (simp add: construct_iff)
  have "wellFormed (view s)" using assms(1,3) by (rule constructed_wellFormed)
  from solve_wellFormed [OF _ this] assms(2,4) s have w: "wellFormed (view (gridOf r))" by auto
  show ?thesis using complete_units [OF w assms(5)] by blast
qed

theorem complete_after_solve_witness:
  "construct (fresh oneBlank) = Inr (fresh oneBlank) \<and> distinct (rowRefs (fresh oneBlank)) \<and>
   allCells isInteger (view (fresh oneBlank)) \<and>
   solve (fresh oneBlank) = Some (Done (fresh solvedGrid)) \<and>
   isSolved (view (gridOf (Done (fresh solvedGrid)))) \<and>
   countValueInRow solvedGrid 0 2 = 1 \<and> countValueInColumn solvedGrid 8 2 = 1 \<and>
   countValueInGroup solvedGrid 0 8 2 = 1"
proof -
  have a: "construct (fresh oneBlank) = Inr (fresh oneBlank)" by code_simp
  have a': "distinct (rowRefs (fresh oneBlank))" by (simp add: fresh_def)
  have b: "allCells isInteger (view (fresh oneBlank))"
    by (simp add: allCells_def isInteger_def oneBlank_def solvedGrid_def)
  have c: "solve (fresh oneBlank) = Some (Done (fresh solvedGrid))" by code_simp
  have d: "isSolved (view (gridOf (Done (fresh solvedGrid))))" by code_simp
  have e: "(0::nat) < 9" "(8::nat) < 9" "(2::real) \<in> set candidates"
    by (simp_all add: candidates_def)
  from complete_after_solve [OF a a' b c d] e
  have "countValueInRow (view (gridOf (Done (fresh solvedGrid)))) 0 2 = 1 \<and>
        countValueInColumn (view (gridOf (Done (fresh solvedGrid)))) 8 2 = 1 \<and>
        countValueInGroup (view (gridOf (Done (fresh solvedGrid)))) 0 8 2 = 1"
    by blast
  with a a' b c d show ?thesis by simp
qed

section \<open>The empty matrix\<close>

lemma sweep_unchanged:
  assumes "\<And>x y v. cell (view s) x y = Some 0 \<Longrightarrow> v \<in> set candidates \<Longrightarrow>
             \<not> isValueValidInPosition (view s) x y v True"
  shows "sweep s = (s, False)"
proof -
  have c: "sweepCell x y (s, False) = (s, False)" for x y
  proof (cases "cell (view s) x y = Some 0")
    case True
    with assms have "find (\<lambda>i. isValueValidInPosition (view s) x y i True) candidates = None"
      by (auto simp: find_None_iff)
    then show ?thesis by (simp add: sweepCell_def)
  next
    case False
    then show ?thesis by (simp add: sweepCell_def)
  qed
  have r: "sweepRow x (s, False) = (s, False)" for x
    unfolding sweepRow_def
    by (rule fold_invariant [where Q = "\<lambda>_. True" and P = "\<lambda>st. st = (s, False)"])
       (simp_all add: c)
  show ?thesis
    unfolding sweep_def
    by (rule fold_invariant [where Q = "\<lambda>_. True" and P = "\<lambda>st. st = (s, False)"])
       (simp_all add: r)
qed

lemma zeroGrid_cell: "cell zeroGrid x y = (if x < 9 \<and> y < 9 then Some 0 else None)"
  by (cases "x < 9") (simp_all add: cell_def zeroGrid_def)

lemma zeroGrid_row: "v \<noteq> 0 \<Longrightarrow> x < 9 \<Longrightarrow> \<not> isValuePresentInRow zeroGrid x v"
  by (simp add: isValuePresentInRow_def countValueInRow_def zeroGrid_def)

lemma zeroGrid_column: "v \<noteq> 0 \<Longrightarrow> \<not> isValuePresentInColumn zeroGrid y v"
  by (auto simp: isValuePresentInColumn_def countValueInColumn_def zeroGrid_cell filter_empty_conv)

lemma zeroGrid_many_positions:
  assumes "x < 9" and "y < 9" and "v \<noteq> 0"
  shows "\<not> canValueBeAddedInOnlyOnePositionInGroup zeroGrid x y v"
proof -
  let ?P = "\<lambda>p. cell zeroGrid (fst p) (snd p) = Some 0 \<and>
                \<not> (isValuePresentInRow zeroGrid (fst p) v \<or>
                   isValuePresentInColumn zeroGrid (snd p) v)"
  have "?P p" if "p \<in> set (groupCells x y)" for p
  proof -
    from that have "fst p div 3 = x div 3" "snd p div 3 = y div 3"
      using in_groupCells [of "fst p" "snd p" x y] by simp_all
    with assms(1,2) have "fst p < 9" "snd p < 9" by arith+
    then show ?thesis using assms(3) by (simp add: zeroGrid_cell zeroGrid_row zeroGrid_column)
  qed
  then have "filter ?P (groupCells x y) = groupCells x y" by (simp add: filter_id_conv)
  then show ?thesis
    by (simp add: canValueBeAddedInOnlyOnePositionInGroup_def length_groupCells)
qed

lemma zero_view_sweep:
  assumes "view s = zeroGrid"
  shows "sweep s = (s, False)"
proof (rule sweep_unchanged)
  fix x y v
  assume "cell (view s) x y = Some 0" "v \<in> set candidates"
  then have "x < 9" "y < 9" "v \<noteq> 0"
    using assms by (auto simp: zeroGrid_cell candidates_nonzero split: if_splits)
  then show "\<not> isValueValidInPosition (view s) x y v True"
    using assms by (simp add: isValueValidInPosition_def zeroGrid_many_positions)
qed

lemma zero_view_propagate:
  assumes "view s = zeroGrid"
  shows "propagate s = s"
  by (subst propagate.simps) (simp add: zero_view_sweep [OF assms] Let_def)

lemma sharedZeros_view: "view sharedZeros = zeroGrid"
  by code_simp

lemma zeroGrid_unsolved: "\<not> isSolved zeroGrid"
  by code_simp

lemma sharedZeros_run:
  "trialRun 82 sharedZeros (getUnfilledPositions (view sharedZeros)) 0 =
     Some (Done sharedOneToNine)"
  by code_simp

lemma sharedZeros_solve: "solve sharedZeros = Some (Done sharedOneToNine)"
proof (rule solve_by_run)
  show "propagate sharedZeros = sharedZeros"
    using sharedZeros_view by (rule zero_view_propagate)
  show "\<not> isSolved (view sharedZeros)" by (simp add: sharedZeros_view zeroGrid_unsolved)
  show "trialRun 82 sharedZeros (getUnfilledPositions (view sharedZeros)) 0 =
     Some (Done sharedOneToNine)" by (rule sharedZeros_run)
qed

text \<open>
  Claim C1 as stated fails. The object built by \<open>Array(9).fill(Array(9).fill(0))\<close> is
  nine references to one row array of zeros; it passes validation and all its cells are
  integers. The sweeps change nothing, and trial and error writes 1 to 9 into the one
  row array, rewriting it for each of the nine rows: \<open>solve\<close> returns with the matrix
  complete and its nine rows equal, so that column 0 holds 1 nine times.
\<close>

theorem shared_rows_end_equal:
  "construct sharedZeros = Inr sharedZeros \<and> allCells isInteger (view sharedZeros) \<and>
   solve sharedZeros = Some (Done sharedOneToNine) \<and> isSolved (view sharedOneToNine) \<and>
   countValueInColumn (view sharedOneToNine) 0 1 = 9"
proof -
  have a: "construct sharedZeros = Inr sharedZeros" by code_simp
  have b: "allCells isInteger (view sharedZeros)"
    by (simp add: sharedZeros_view allCells_def isInteger_def zeroGrid_def list_all_length)
  have c: "isSolved (view sharedOneToNine)" by code_simp
  have d: "countValueInColumn (view sharedOneToNine) 0 1 = 9" by code_simp
  from a b sharedZeros_solve c d show ?thesis by (intro conjI)
qed

end
